theory Spec2Isabelle
  imports Main
begin

unbundle bit_operations_syntax

section \<open>Errors\<close>

text \<open>
  The source raises \<open>ConfiguracionInvalidaError\<close> in the constructor and \<open>ValueError\<close>
  in \<open>decodificar\<close>, each with a message. The messages are kept as the constructors of
  \<open>motivo\<close>. The remaining reasons are the exceptions of the Python built-ins the codec
  calls: \<open>int(s, 2)\<close> on a string that is not a binary literal, a shift by a negative
  count, \<open>range\<close> with step zero, division by zero, and \<open>to_bytes\<close> on a value that
  does not fit.
\<close>

datatype motivo =
    BaseNoPermitida
  | PotenciaNoPermitida
  | BloqueFueraDeRango
  | BaseNoCoincide
  | PotenciaNoCoincide
  | BloqueNoCoincide
  | LiteralInvalido
  | DesplazamientoNegativo
  | PasoCero

datatype error =
    ConfiguracionInvalidaError motivo
  | ValueError motivo
  | ZeroDivisionError
  | OverflowError

section \<open>Python built-ins used by the codec\<close>

text \<open>\<open>int.bit_length()\<close>: the number of bits of the absolute value.\<close>

fun bit_length_nat :: "nat \<Rightarrow> nat" where
  "bit_length_nat n = (if n = 0 then 0 else Suc (bit_length_nat (n div 2)))"

declare bit_length_nat.simps [simp del]

definition bit_length :: "int \<Rightarrow> int" where
  "bit_length x = int (bit_length_nat (nat \<bar>x\<bar>))"

text \<open>
  \<open>int(s, 2)\<close> on the codec's input alphabet: a non-empty string of the characters
  \<open>0\<close> and \<open>1\<close> is read most-significant bit first, the empty string raises
  \<open>ValueError\<close>. A string with any other character is outside the documented input
  (\<open>Cadena de bits (solo '0' y '1')\<close>) and the model rejects it; the other literals
  that Python reads (a sign, the prefix \<open>0b\<close>, underscores, surrounding blanks) are
  not modelled, and nothing below is stated about them.
\<close>

definition es_bit :: "char \<Rightarrow> bool" where
  "es_bit ch = (ch = CHR ''0'' \<or> ch = CHR ''1'')"

definition valor_bits :: "string \<Rightarrow> int" where
  "valor_bits s = foldl (\<lambda>acc ch. 2 * acc + (if ch = CHR ''1'' then 1 else 0)) 0 s"

definition py_int2 :: "string \<Rightarrow> error + int" where
  "py_int2 s =
     (if s \<noteq> [] \<and> list_all es_bit s then Inr (valor_bits s)
      else Inl (ValueError LiteralInvalido))"

text \<open>\<open>bin(v)\<close>: sign, the prefix \<open>0b\<close>, then the binary digits without leading zeros.\<close>

fun bits_de_nat :: "nat \<Rightarrow> string" where
  "bits_de_nat n =
     (if n < 2 then [if n = 0 then CHR ''0'' else CHR ''1'']
      else bits_de_nat (n div 2) @ [if n mod 2 = 0 then CHR ''0'' else CHR ''1''])"

declare bits_de_nat.simps [simp del]

definition py_bin :: "int \<Rightarrow> string" where
  "py_bin v =
     (if v < 0 then ''-0b'' @ bits_de_nat (nat (- v)) else ''0b'' @ bits_de_nat (nat v))"

text \<open>
  \<open>s.zfill(width)\<close>: pads with \<open>0\<close> on the left up to \<open>width\<close>, after a leading sign
  if there is one; a string already that long is returned as it is.
\<close>

definition zfill :: "int \<Rightarrow> string \<Rightarrow> string" where
  "zfill width s =
     (if width \<le> int (length s) then s
      else (case s of
              [] \<Rightarrow> replicate (nat width) CHR ''0''
            | ch # r \<Rightarrow>
                if ch = CHR ''+'' \<or> ch = CHR ''-''
                then ch # replicate (nat width - length s) CHR ''0'' @ r
                else replicate (nat width - length s) CHR ''0'' @ s))"

text \<open>\<open>range(0, stop, step)\<close> for a length \<open>stop\<close>.\<close>

definition py_range0 :: "nat \<Rightarrow> int \<Rightarrow> error + nat list" where
  "py_range0 stop step =
     (if step = 0 then Inl (ValueError PasoCero)
      else if step < 0 then Inr []
      else Inr (map (\<lambda>k. k * nat step) [0 ..< (stop + nat step - 1) div nat step]))"

section \<open>The codec: \<open>CodificadorUniversal\<close>\<close>

record codificador =
  verbose :: bool
  base :: int
  potencia :: int
  bits_por_bloque :: int

definition POTENCIAS_BASE_2 :: "int list" where
  "POTENCIAS_BASE_2 = [2^1, 2^2, 2^4, 2^8, 2^16, 2^32, 2^64]"

definition POTENCIAS_BASE_5 :: "int list" where
  "POTENCIAS_BASE_5 = [5^1, 5^2, 5^3, 5^4]"

definition BITS_MINIMO :: int where
  "BITS_MINIMO = 10"

definition BITS_MAXIMO :: int where
  "BITS_MAXIMO = 1000"

text \<open>
  The constructor \<open>__init__\<close>. The checks are in the order of the source: base, power
  for the base, block size. Printing when \<open>verbose\<close> is set is not modelled, here and
  below.
\<close>

definition CodificadorUniversal_init :: "int \<Rightarrow> int \<Rightarrow> int \<Rightarrow> bool \<Rightarrow> error + codificador" where
  "CodificadorUniversal_init b p n vb =
     (if b \<notin> set [2, 5] then Inl (ConfiguracionInvalidaError BaseNoPermitida)
      else if b = 2 \<and> p \<notin> set POTENCIAS_BASE_2
        then Inl (ConfiguracionInvalidaError PotenciaNoPermitida)
      else if b \<noteq> 2 \<and> b = 5 \<and> p \<notin> set POTENCIAS_BASE_5
        then Inl (ConfiguracionInvalidaError PotenciaNoPermitida)
      else if \<not> (BITS_MINIMO \<le> n \<and> n \<le> BITS_MAXIMO)
        then Inl (ConfiguracionInvalidaError BloqueFueraDeRango)
      else Inr \<lparr>verbose = vb, base = b, potencia = p, bits_por_bloque = n\<rparr>)"

subsection \<open>Segmentation: \<open>binario_a_bloques\<close>\<close>

text \<open>
  One iteration of the \<open>for\<close> loop at offset \<open>i\<close>: the slice \<open>datos[i:i + bits]\<close>, padded
  with zeros when it is short; the state is the pair \<open>(bloques, bits_padding)\<close>.
\<close>

definition paso_bloque :: "codificador \<Rightarrow> string \<Rightarrow> string list \<times> int \<Rightarrow> nat \<Rightarrow> string list \<times> int" where
  "paso_bloque c datos_binarios st i =
     (let bloque = take (nat (bits_por_bloque c)) (drop i datos_binarios) in
      if int (length bloque) < bits_por_bloque c
      then (let bits_padding = bits_por_bloque c - int (length bloque) in
            (fst st @ [bloque @ replicate (nat bits_padding) CHR ''0''], bits_padding))
      else (fst st @ [bloque], snd st))"

definition binario_a_bloques :: "codificador \<Rightarrow> string \<Rightarrow> error + string list \<times> int" where
  "binario_a_bloques c datos_binarios =
     (case py_range0 (length datos_binarios) (bits_por_bloque c) of
        Inl e \<Rightarrow> Inl e
      | Inr indices \<Rightarrow> Inr (foldl (paso_bloque c datos_binarios) ([], 0) indices))"

subsection \<open>Block encoders\<close>

text \<open>
  The \<open>while\<close> loops may run forever (a window of width zero, a power equal to one), so
  they are partial functions: \<open>None\<close> is a loop that does not return. A shift by a
  negative count and a division by zero raise.
\<close>

partial_function (option) ventanas_loop :: "int \<Rightarrow> int \<Rightarrow> int list \<Rightarrow> int \<Rightarrow> (error + int list) option" where
  "ventanas_loop bits_ventana mascara ventanas valor_actual =
     (if valor_actual > 0
      then (if bits_ventana < 0 then Some (Inl (ValueError DesplazamientoNegativo))
            else ventanas_loop bits_ventana mascara
                   (ventanas @ [valor_actual AND mascara])
                   (drop_bit (nat bits_ventana) valor_actual))
      else Some (Inr ventanas))"

declare ventanas_loop.simps [code]

definition codificar_bloque_base2 :: "codificador \<Rightarrow> string \<Rightarrow> nat \<Rightarrow> (error + int list) option" where
  "codificar_bloque_base2 c bloque_binario numero_bloque =
     (case py_int2 bloque_binario of
        Inl e \<Rightarrow> Some (Inl e)
      | Inr valor_decimal \<Rightarrow>
          (case ventanas_loop (bit_length (potencia c) - 1) (potencia c - 1) [] valor_decimal of
             None \<Rightarrow> None
           | Some (Inl e) \<Rightarrow> Some (Inl e)
           | Some (Inr ventanas) \<Rightarrow> Some (Inr (if ventanas = [] then [0] else ventanas))))"

partial_function (option) residuos_loop :: "int \<Rightarrow> int list \<Rightarrow> int \<Rightarrow> (error + int list) option" where
  "residuos_loop pot residuos cociente =
     (if cociente > 0
      then (if pot = 0 then Some (Inl ZeroDivisionError)
            else residuos_loop pot (residuos @ [cociente mod pot]) (cociente div pot))
      else Some (Inr residuos))"

declare residuos_loop.simps [code]

definition codificar_bloque_base5 :: "codificador \<Rightarrow> string \<Rightarrow> nat \<Rightarrow> (error + int list) option" where
  "codificar_bloque_base5 c bloque_binario numero_bloque =
     (case py_int2 bloque_binario of
        Inl e \<Rightarrow> Some (Inl e)
      | Inr valor_decimal \<Rightarrow>
          (case residuos_loop (potencia c) [] valor_decimal of
             None \<Rightarrow> None
           | Some (Inl e) \<Rightarrow> Some (Inl e)
           | Some (Inr residuos) \<Rightarrow> Some (Inr (if residuos = [] then [0] else residuos))))"

subsection \<open>Block decoders\<close>

text \<open>The \<open>for idx, x in enumerate(...)\<close> loops, with the running index and value.\<close>

fun reconstruir_base2 :: "int \<Rightarrow> nat \<Rightarrow> int \<Rightarrow> int list \<Rightarrow> error + int" where
  "reconstruir_base2 bits_ventana idx valor_reconstruido [] = Inr valor_reconstruido"
| "reconstruir_base2 bits_ventana idx valor_reconstruido (ventana # resto) =
     (if int idx * bits_ventana < 0 then Inl (ValueError DesplazamientoNegativo)
      else reconstruir_base2 bits_ventana (Suc idx)
             (valor_reconstruido OR push_bit (nat (int idx * bits_ventana)) ventana) resto)"

text \<open>The conversion to binary shared by both decoders.\<close>

definition a_binario :: "codificador \<Rightarrow> int \<Rightarrow> string" where
  "a_binario c valor_reconstruido =
     (if valor_reconstruido = 0 then replicate (nat (bits_por_bloque c)) CHR ''0''
      else zfill (bits_por_bloque c) (drop 2 (py_bin valor_reconstruido)))"

definition decodificar_bloque_base2 :: "codificador \<Rightarrow> int list \<Rightarrow> nat \<Rightarrow> error + string" where
  "decodificar_bloque_base2 c valores numero_bloque =
     (case reconstruir_base2 (bit_length (potencia c) - 1) 0 0 valores of
        Inl e \<Rightarrow> Inl e
      | Inr valor_reconstruido \<Rightarrow> Inr (a_binario c valor_reconstruido))"

fun reconstruir_base5 :: "int \<Rightarrow> nat \<Rightarrow> int \<Rightarrow> int list \<Rightarrow> int" where
  "reconstruir_base5 pot idx valor_reconstruido [] = valor_reconstruido"
| "reconstruir_base5 pot idx valor_reconstruido (residuo # resto) =
     reconstruir_base5 pot (Suc idx) (valor_reconstruido + residuo * pot ^ idx) resto"

definition decodificar_bloque_base5 :: "codificador \<Rightarrow> int list \<Rightarrow> nat \<Rightarrow> error + string" where
  "decodificar_bloque_base5 c residuos numero_bloque =
     Inr (a_binario c (reconstruir_base5 (potencia c) 0 0 residuos))"

subsection \<open>Stream encoder and decoder\<close>

text \<open>
  The dictionary returned by \<open>codificar\<close>, with its eight keys; the keys \<open>base\<close>,
  \<open>potencia\<close> and \<open>bits_por_bloque\<close> carry the prefix \<open>dc_\<close> to tell them from the
  codec's attributes. The elapsed time is a value of any type \<open>'t\<close>, read from the clock
  by the caller.
\<close>

record 't datos_codificados =
  bloques_codificados :: "int list list"
  bits_padding :: int
  dc_base :: int
  dc_potencia :: int
  dc_bits_por_bloque :: int
  num_bloques :: int
  bits_originales :: int
  tiempo_codificacion :: 't

fun codificar_bloques :: "codificador \<Rightarrow> nat \<Rightarrow> string list \<Rightarrow> (error + int list list) option" where
  "codificar_bloques c idx [] = Some (Inr [])"
| "codificar_bloques c idx (bloque # resto) =
     (case (if base c = 2 then codificar_bloque_base2 c bloque idx
            else codificar_bloque_base5 c bloque idx) of
        None \<Rightarrow> None
      | Some (Inl e) \<Rightarrow> Some (Inl e)
      | Some (Inr valores) \<Rightarrow>
          (case codificar_bloques c (Suc idx) resto of
             None \<Rightarrow> None
           | Some (Inl e) \<Rightarrow> Some (Inl e)
           | Some (Inr codificados) \<Rightarrow> Some (Inr (valores # codificados))))"

definition codificar :: "codificador \<Rightarrow> string \<Rightarrow> 't \<Rightarrow> (error + 't datos_codificados) option" where
  "codificar c datos_binarios tiempo =
     (case binario_a_bloques c datos_binarios of
        Inl e \<Rightarrow> Some (Inl e)
      | Inr (bloques, padding) \<Rightarrow>
          (case codificar_bloques c 1 bloques of
             None \<Rightarrow> None
           | Some (Inl e) \<Rightarrow> Some (Inl e)
           | Some (Inr codificados) \<Rightarrow>
               Some (Inr \<lparr>bloques_codificados = codificados,
                          bits_padding = padding,
                          dc_base = base c,
                          dc_potencia = potencia c,
                          dc_bits_por_bloque = bits_por_bloque c,
                          num_bloques = int (length bloques),
                          bits_originales = int (length datos_binarios),
                          tiempo_codificacion = tiempo\<rparr>)))"

fun decodificar_bloques :: "codificador \<Rightarrow> nat \<Rightarrow> int list list \<Rightarrow> error + string list" where
  "decodificar_bloques c idx [] = Inr []"
| "decodificar_bloques c idx (valores # resto) =
     (case (if base c = 2 then decodificar_bloque_base2 c valores idx
            else decodificar_bloque_base5 c valores idx) of
        Inl e \<Rightarrow> Inl e
      | Inr bloque \<Rightarrow>
          (case decodificar_bloques c (Suc idx) resto of
             Inl e \<Rightarrow> Inl e
           | Inr decodificados \<Rightarrow> Inr (bloque # decodificados)))"

text \<open>
  \<open>decodificar\<close>: the three checks at entry, the blocks in order, the join, and the
  slice \<open>[:-bits_padding]\<close> when the padding is positive (a padding longer than the
  data leaves the empty string).
\<close>

definition decodificar :: "codificador \<Rightarrow> 't datos_codificados \<Rightarrow> error + string" where
  "decodificar c datos =
     (if dc_base datos \<noteq> base c then Inl (ValueError BaseNoCoincide)
      else if dc_potencia datos \<noteq> potencia c then Inl (ValueError PotenciaNoCoincide)
      else if dc_bits_por_bloque datos \<noteq> bits_por_bloque c then Inl (ValueError BloqueNoCoincide)
      else (case decodificar_bloques c 1 (bloques_codificados datos) of
              Inl e \<Rightarrow> Inl e
            | Inr bloques_decodificados \<Rightarrow>
                (let datos_reconstruidos = concat bloques_decodificados in
                 if bits_padding datos > 0
                 then Inr (take (length datos_reconstruidos - nat (bits_padding datos))
                             datos_reconstruidos)
                 else Inr datos_reconstruidos)))"

section \<open>Integrity check: \<open>AnalizadorEficiencia\<close>\<close>

text \<open>
  \<open>int.to_bytes(n, byteorder='big')\<close> for a non-negative value, which raises
  \<open>OverflowError\<close> when the value does not fit in \<open>n\<close> bytes, and the packing of
  \<open>calcular_sha256\<close>. The digest itself is the library's
  \<open>hashlib.sha256(...).hexdigest()\<close>; it is a parameter \<open>sha256\<close> of the model.
\<close>

fun bytes_big :: "nat \<Rightarrow> nat \<Rightarrow> nat list" where
  "bytes_big 0 v = []"
| "bytes_big (Suc n) v = bytes_big n (v div 256) @ [v mod 256]"

definition to_bytes :: "nat \<Rightarrow> nat \<Rightarrow> error + nat list" where
  "to_bytes n v = (if 256 ^ n \<le> v then Inl OverflowError else Inr (bytes_big n v))"

definition calcular_sha256 :: "(nat list \<Rightarrow> string) \<Rightarrow> string \<Rightarrow> error + string" where
  "calcular_sha256 sha256 datos_binarios =
     (let padding_bytes = (8 - length datos_binarios mod 8) mod 8;
          datos_padded = datos_binarios @ replicate padding_bytes CHR ''0''
      in case py_int2 datos_padded of
           Inl e \<Rightarrow> Inl e
         | Inr v \<Rightarrow>
             (case to_bytes (length datos_padded div 8) (nat v) of
                Inl e \<Rightarrow> Inl e
              | Inr bytes_data \<Rightarrow> Inr (sha256 bytes_data)))"

definition verificar_integridad :: "(nat list \<Rightarrow> string) \<Rightarrow> string \<Rightarrow> string \<Rightarrow> error + bool" where
  "verificar_integridad sha256 original decodificado =
     (let coinciden_bits = (original = decodificado) in
      case calcular_sha256 sha256 original of
        Inl e \<Rightarrow> Inl e
      | Inr hash_original \<Rightarrow>
          (case calcular_sha256 sha256 decodificado of
             Inl e \<Rightarrow> Inl e
           | Inr hash_decodificado \<Rightarrow>
               (let coinciden_hash = (hash_original = hash_decodificado) in
                Inr (coinciden_bits \<and> coinciden_hash))))"

section \<open>Positional digits\<close>

text \<open>
  The digits of a value in the words of the specification, for a power greater than one:
  while the value is positive, take the value modulo the power as the next digit and
  divide the value by the power; index 0 is the least-significant digit. The loops of the
  two encoders are compared with it below.
\<close>

function digitos :: "int \<Rightarrow> int \<Rightarrow> int list" where
  "digitos p v = (if 0 < v \<and> 1 < p then (v mod p) # digitos p (v div p) else [])"
  by pat_completeness auto
termination
  by (relation "measure (\<lambda>(p, v). nat v)") (auto simp add: int_div_less_self)

declare digitos.simps [simp del]

section \<open>Configuration validation\<close>

lemma POTENCIAS_BASE_2_set:
  "set POTENCIAS_BASE_2 = {2^1, 2^2, 2^4, 2^8, 2^16, 2^32, 2^64}"
  by (simp add: POTENCIAS_BASE_2_def)

lemma POTENCIAS_BASE_5_set:
  "set POTENCIAS_BASE_5 = {5^1, 5^2, 5^3, 5^4}"
  by (simp add: POTENCIAS_BASE_5_def)

text \<open>
  C5. The constructor fails exactly when the base is not 2 or 5, or the power is not in
  the list for the base (for base 2 the seven powers \<open>2^1, 2^2, 2^4, 2^8, 2^16, 2^32,
  2^64\<close>, for base 5 the four powers \<open>5^1 .. 5^4\<close>), or the block size is outside
  \<open>[10, 1000]\<close>. Every failure is a \<open>ConfiguracionInvalidaError\<close> whose reason names
  the first check that failed, and a success stores the three parameters. The four
  triples \<open>(10, 100, 40)\<close>, \<open>(2, 32, 40)\<close>, \<open>(5, 25, 5)\<close> and \<open>(5, 25, 1500)\<close> fail with
  the reasons bad base, bad power, block size, block size.
\<close>

theorem init_rechaza_exactamente:
  "(isl (CodificadorUniversal_init b p n vb) \<longleftrightarrow>
      (b \<notin> {2, 5}
       \<or> (b = 2 \<and> p \<notin> {2^1, 2^2, 2^4, 2^8, 2^16, 2^32, 2^64})
       \<or> (b = 5 \<and> p \<notin> {5^1, 5^2, 5^3, 5^4})
       \<or> n < 10 \<or> 1000 < n))
   \<and> (b \<notin> {2, 5} \<longrightarrow>
        CodificadorUniversal_init b p n vb = Inl (ConfiguracionInvalidaError BaseNoPermitida))
   \<and> ((b = 2 \<and> p \<notin> {2^1, 2^2, 2^4, 2^8, 2^16, 2^32, 2^64})
        \<or> (b = 5 \<and> p \<notin> {5^1, 5^2, 5^3, 5^4}) \<longrightarrow>
        CodificadorUniversal_init b p n vb = Inl (ConfiguracionInvalidaError PotenciaNoPermitida))
   \<and> (((b = 2 \<and> p \<in> {2^1, 2^2, 2^4, 2^8, 2^16, 2^32, 2^64})
         \<or> (b = 5 \<and> p \<in> {5^1, 5^2, 5^3, 5^4})) \<and> (n < 10 \<or> 1000 < n) \<longrightarrow>
        CodificadorUniversal_init b p n vb = Inl (ConfiguracionInvalidaError BloqueFueraDeRango))
   \<and> (\<not> isl (CodificadorUniversal_init b p n vb) \<longrightarrow>
        CodificadorUniversal_init b p n vb =
          Inr \<lparr>verbose = vb, base = b, potencia = p, bits_por_bloque = n\<rparr>)
   \<and> CodificadorUniversal_init 10 100 40 vb = Inl (ConfiguracionInvalidaError BaseNoPermitida)
   \<and> CodificadorUniversal_init 2 32 40 vb = Inl (ConfiguracionInvalidaError PotenciaNoPermitida)
   \<and> CodificadorUniversal_init 5 25 5 vb = Inl (ConfiguracionInvalidaError BloqueFueraDeRango)
   \<and> CodificadorUniversal_init 5 25 1500 vb = Inl (ConfiguracionInvalidaError BloqueFueraDeRango)"
  unfolding CodificadorUniversal_init_def POTENCIAS_BASE_2_set POTENCIAS_BASE_5_set
    BITS_MINIMO_def BITS_MAXIMO_def
  by (auto simp del: power_one_right)

theorem init_rechaza_exactamente_witness:
  "isl (CodificadorUniversal_init 3 9 40 False)
   \<and> CodificadorUniversal_init 3 9 40 False = Inl (ConfiguracionInvalidaError BaseNoPermitida)
   \<and> CodificadorUniversal_init 2 8 40 False = Inl (ConfiguracionInvalidaError PotenciaNoPermitida)
   \<and> CodificadorUniversal_init 5 3125 40 False = Inl (ConfiguracionInvalidaError PotenciaNoPermitida)
   \<and> CodificadorUniversal_init 5 25 2000 False = Inl (ConfiguracionInvalidaError BloqueFueraDeRango)
   \<and> CodificadorUniversal_init 2 256 100 False =
        Inr \<lparr>verbose = False, base = 2, potencia = 256, bits_por_bloque = 100\<rparr>"
  using init_rechaza_exactamente [of 3 9 40 False]
    init_rechaza_exactamente [of 2 8 40 False]
    init_rechaza_exactamente [of 5 3125 40 False]
    init_rechaza_exactamente [of 5 25 2000 False]
    init_rechaza_exactamente [of 2 256 100 False]
  by simp

section \<open>Canonical zero block\<close>

lemma valor_bits_ceros: "valor_bits (replicate m CHR ''0'') = 0"
proof -
  have "foldl (\<lambda>acc ch. 2 * acc + (if ch = CHR ''1'' then 1 else 0)) (0::int)
          (replicate m CHR ''0'') = 0"
    by (induction m) simp_all
  then show ?thesis by (simp add: valor_bits_def)
qed

lemma py_int2_ceros: "0 < m \<Longrightarrow> py_int2 (replicate m CHR ''0'') = Inr 0"
  by (simp add: py_int2_def valor_bits_ceros list_all_length es_bit_def)

lemma ventanas_loop_cero: "ventanas_loop w m acc 0 = Some (Inr acc)"
  by (subst ventanas_loop.simps) simp

lemma residuos_loop_cero: "residuos_loop p acc 0 = Some (Inr acc)"
  by (subst residuos_loop.simps) simp

text \<open>
  C7. For a block size in \<open>[10, 1000]\<close>, the block of that many \<open>0\<close> bits is encoded as
  the one-element list \<open>[0]\<close>, never as the empty list, by the base-2 encoder and by the
  base-5 encoder.
\<close>

theorem bloque_de_ceros:
  assumes "10 \<le> bits_por_bloque c" and "bits_por_bloque c \<le> 1000"
  shows "codificar_bloque_base2 c (replicate (nat (bits_por_bloque c)) CHR ''0'') k = Some (Inr [0])
       \<and> codificar_bloque_base5 c (replicate (nat (bits_por_bloque c)) CHR ''0'') k = Some (Inr [0])"
proof -
  from assms have "0 < nat (bits_por_bloque c)" by simp
  then have "py_int2 (replicate (nat (bits_por_bloque c)) CHR ''0'') = Inr 0"
    by (rule py_int2_ceros)
  then show ?thesis
    by (simp add: codificar_bloque_base2_def codificar_bloque_base5_def
        ventanas_loop_cero residuos_loop_cero)
qed

theorem bloque_de_ceros_witness:
  "codificar_bloque_base2 \<lparr>verbose = False, base = 2, potencia = 16, bits_por_bloque = 10\<rparr>
     ''0000000000'' 1 = Some (Inr [0])
   \<and> codificar_bloque_base5 \<lparr>verbose = False, base = 2, potencia = 16, bits_por_bloque = 10\<rparr>
     ''0000000000'' 1 = Some (Inr [0])"
  using bloque_de_ceros
    [of "\<lparr>verbose = False, base = 2, potencia = 16, bits_por_bloque = 10\<rparr>" 1]
  by (simp add: eval_nat_numeral)

section \<open>Configuration mismatch at decoding\<close>

text \<open>
  C6. When the stream's recorded base, power or block size differs from the codec's,
  \<open>decodificar\<close> fails with a \<open>ValueError\<close> whose reason names the first field that
  differs, in the order base, power, block size. It returns no bit string, and the error
  is the same whatever the stream's blocks and padding are: the checks come before any
  block is decoded.
\<close>

theorem decodificar_no_coincide:
  "(dc_base d \<noteq> base c \<longrightarrow> decodificar c d = Inl (ValueError BaseNoCoincide))
   \<and> (dc_base d = base c \<and> dc_potencia d \<noteq> potencia c \<longrightarrow>
        decodificar c d = Inl (ValueError PotenciaNoCoincide))
   \<and> (dc_base d = base c \<and> dc_potencia d = potencia c
        \<and> dc_bits_por_bloque d \<noteq> bits_por_bloque c \<longrightarrow>
        decodificar c d = Inl (ValueError BloqueNoCoincide))
   \<and> (dc_base d \<noteq> base c \<or> dc_potencia d \<noteq> potencia c
        \<or> dc_bits_por_bloque d \<noteq> bits_por_bloque c \<longrightarrow>
        isl (decodificar c d)
        \<and> decodificar c (d\<lparr>bloques_codificados := bs, bits_padding := pd\<rparr>) = decodificar c d)"
  by (simp add: decodificar_def)

theorem decodificar_no_coincide_witness:
  "decodificar \<lparr>verbose = False, base = 2, potencia = 16, bits_por_bloque = 40\<rparr>
     \<lparr>bloques_codificados = [[3, 12]], bits_padding = 15, dc_base = 5, dc_potencia = 25,
      dc_bits_por_bloque = 40, num_bloques = 1, bits_originales = 25,
      tiempo_codificacion = ()\<rparr> = Inl (ValueError BaseNoCoincide)
   \<and> decodificar \<lparr>verbose = False, base = 2, potencia = 16, bits_por_bloque = 40\<rparr>
     \<lparr>bloques_codificados = [[3, 12]], bits_padding = 15, dc_base = 2, dc_potencia = 4,
      dc_bits_por_bloque = 40, num_bloques = 1, bits_originales = 25,
      tiempo_codificacion = ()\<rparr> = Inl (ValueError PotenciaNoCoincide)
   \<and> decodificar \<lparr>verbose = False, base = 2, potencia = 16, bits_por_bloque = 40\<rparr>
     \<lparr>bloques_codificados = [[3, 12]], bits_padding = 15, dc_base = 2, dc_potencia = 16,
      dc_bits_por_bloque = 41, num_bloques = 1, bits_originales = 25,
      tiempo_codificacion = ()\<rparr> = Inl (ValueError BloqueNoCoincide)"
  using decodificar_no_coincide
    [of "\<lparr>bloques_codificados = [[3, 12]], bits_padding = 15, dc_base = 5, dc_potencia = 25,
      dc_bits_por_bloque = 40, num_bloques = 1, bits_originales = 25,
      tiempo_codificacion = ()\<rparr>"
      "\<lparr>verbose = False, base = 2, potencia = 16, bits_por_bloque = 40\<rparr>"]
    decodificar_no_coincide
    [of "\<lparr>bloques_codificados = [[3, 12]], bits_padding = 15, dc_base = 2, dc_potencia = 4,
      dc_bits_por_bloque = 40, num_bloques = 1, bits_originales = 25,
      tiempo_codificacion = ()\<rparr>"
      "\<lparr>verbose = False, base = 2, potencia = 16, bits_por_bloque = 40\<rparr>"]
    decodificar_no_coincide
    [of "\<lparr>bloques_codificados = [[3, 12]], bits_padding = 15, dc_base = 2, dc_potencia = 16,
      dc_bits_por_bloque = 41, num_bloques = 1, bits_originales = 25,
      tiempo_codificacion = ()\<rparr>"
      "\<lparr>verbose = False, base = 2, potencia = 16, bits_por_bloque = 40\<rparr>"]
  by simp

section \<open>Decoding ignores the metadata\<close>

text \<open>
  C10. The result of \<open>decodificar\<close> depends only on the stream's blocks, padding, base,
  power and block size: two streams that agree on these five fields decode to the same
  result, whatever their \<open>num_bloques\<close>, \<open>bits_originales\<close> and \<open>tiempo_codificacion\<close>.
\<close>

theorem decodificar_ignora_metadatos:
  assumes "bloques_codificados d1 = bloques_codificados d2"
    and "bits_padding d1 = bits_padding d2"
    and "dc_base d1 = dc_base d2"
    and "dc_potencia d1 = dc_potencia d2"
    and "dc_bits_por_bloque d1 = dc_bits_por_bloque d2"
  shows "decodificar c d1 = decodificar c d2"
  unfolding decodificar_def assms by (rule refl)

theorem decodificar_ignora_metadatos_witness:
  "decodificar \<lparr>verbose = False, base = 2, potencia = 16, bits_por_bloque = 10\<rparr>
     \<lparr>bloques_codificados = [[5, 10, 2]], bits_padding = 3, dc_base = 2, dc_potencia = 16,
      dc_bits_por_bloque = 10, num_bloques = 1, bits_originales = 7,
      tiempo_codificacion = (0::nat)\<rparr>
   = decodificar \<lparr>verbose = False, base = 2, potencia = 16, bits_por_bloque = 10\<rparr>
     \<lparr>bloques_codificados = [[5, 10, 2]], bits_padding = 3, dc_base = 2, dc_potencia = 16,
      dc_bits_por_bloque = 10, num_bloques = 99, bits_originales = - 4,
      tiempo_codificacion = (17::nat)\<rparr>"
  using decodificar_ignora_metadatos
    [of "\<lparr>bloques_codificados = [[5, 10, 2]], bits_padding = 3, dc_base = 2, dc_potencia = 16,
      dc_bits_por_bloque = 10, num_bloques = 1, bits_originales = 7,
      tiempo_codificacion = (0::nat)\<rparr>"
     "\<lparr>bloques_codificados = [[5, 10, 2]], bits_padding = 3, dc_base = 2, dc_potencia = 16,
      dc_bits_por_bloque = 10, num_bloques = 99, bits_originales = - 4,
      tiempo_codificacion = (17::nat)\<rparr>"
     "\<lparr>verbose = False, base = 2, potencia = 16, bits_por_bloque = 10\<rparr>"]
  by simp

section \<open>Segmentation\<close>

text \<open>
  The loop runs over the offsets \<open>0, n, 2n, ...\<close> below the length; offset \<open>j * n\<close> is
  one of them exactly when \<open>j * n\<close> is less than the length.
\<close>

lemma rango_menor:
  fixes j L n :: nat
  assumes "0 < n"
  shows "(j < (L + n - 1) div n) = (j * n < L)"
proof -
  have "(Suc j \<le> (L + n - 1) div n) = (Suc j * n \<le> L + n - 1)"
    using assms by (simp add: less_eq_div_iff_mult_less_eq)
  then show ?thesis using assms by auto
qed

lemma fst_paso_bloque:
  "fst (paso_bloque c xs st i) =
     fst st @ [take (nat (bits_por_bloque c)) (drop i xs)
               @ replicate (nat (bits_por_bloque c) - length (take (nat (bits_por_bloque c)) (drop i xs))) CHR ''0'']"
  by (auto simp add: paso_bloque_def Let_def nat_diff_distrib')

lemma fst_foldl_paso_bloque:
  "fst (foldl (paso_bloque c xs) st is) =
     fst st @ map (\<lambda>i. take (nat (bits_por_bloque c)) (drop i xs)
               @ replicate (nat (bits_por_bloque c) - length (take (nat (bits_por_bloque c)) (drop i xs))) CHR ''0'') is"
  by (induction "is" arbitrary: st) (simp_all add: fst_paso_bloque)

lemma snd_paso_bloque_lleno:
  assumes "i + nat (bits_por_bloque c) \<le> length xs"
  shows "snd (paso_bloque c xs st i) = snd st"
  using assms by (auto simp add: paso_bloque_def Let_def)

lemma snd_paso_bloque_corto:
  assumes "length xs < i + nat (bits_por_bloque c)" and "i \<le> length xs"
  shows "snd (paso_bloque c xs st i) = bits_por_bloque c - int (length xs - i)"
  using assms by (auto simp add: paso_bloque_def Let_def)

lemma snd_foldl_paso_bloque:
  fixes c xs
  defines "n \<equiv> nat (bits_por_bloque c)"
  assumes "0 < bits_por_bloque c" and "j \<le> (length xs + n - 1) div n"
  shows "snd (foldl (paso_bloque c xs) (bs, 0) (map (\<lambda>k. k * n) [0 ..< j])) =
           (if j = (length xs + n - 1) div n \<and> length xs mod n \<noteq> 0
            then bits_por_bloque c - int (length xs mod n) else 0)"
  using assms(3)
proof (induction j)
  case 0
  have "0 < n" using assms(2) by (simp add: n_def)
  then have "length xs mod n \<noteq> 0 \<Longrightarrow> 0 < (length xs + n - 1) div n"
    using rango_menor [of n 0 "length xs"] by auto
  then show ?case by auto
next
  case (Suc j)
  have npos: "0 < n" using assms(2) by (simp add: n_def)
  from Suc.prems have jlt: "j < (length xs + n - 1) div n" by simp
  then have jn: "j * n < length xs" using rango_menor [OF npos] by simp
  from Suc.IH jlt have prev:
    "snd (foldl (paso_bloque c xs) (bs, 0) (map (\<lambda>k. k * n) [0 ..< j])) = 0"
    by simp
  obtain st where st: "foldl (paso_bloque c xs) (bs, 0) (map (\<lambda>k. k * n) [0 ..< j]) = st"
    by simp
  with prev have st0: "snd st = 0" by simp
  have step: "foldl (paso_bloque c xs) (bs, 0) (map (\<lambda>k. k * n) [0 ..< Suc j])
                = paso_bloque c xs st (j * n)"
    using st by simp
  show ?case
  proof (cases "Suc j * n \<le> length xs")
    case True
    then have full: "j * n + nat (bits_por_bloque c) \<le> length xs"
      by (simp add: n_def add.commute)
    have "\<not> (Suc j = (length xs + n - 1) div n \<and> length xs mod n \<noteq> 0)"
    proof
      assume h: "Suc j = (length xs + n - 1) div n \<and> length xs mod n \<noteq> 0"
      then have "\<not> (Suc j < (length xs + n - 1) div n)" by simp
      then have "\<not> (Suc j * n < length xs)" using rango_menor [OF npos] by simp
      with True have "length xs = Suc j * n" by simp
      with h show False by simp
    qed
    moreover have "snd (foldl (paso_bloque c xs) (bs, 0) (map (\<lambda>k. k * n) [0 ..< Suc j])) = 0"
      using snd_paso_bloque_lleno [OF full, of st] st0 step by simp
    ultimately show ?thesis by auto
  next
    case False
    then have short: "length xs < j * n + nat (bits_por_bloque c)"
      by (simp add: n_def add.commute)
    have "\<not> (Suc j < (length xs + n - 1) div n)"
      using False rango_menor [OF npos, of "Suc j" "length xs"] by simp
    with Suc.prems have last: "Suc j = (length xs + n - 1) div n" by simp
    have q: "length xs div n = j"
    proof -
      from jn False have "j * n \<le> length xs \<and> length xs < Suc j * n" by simp
      then show ?thesis
        by (metis div_nat_eqI mult.commute)
    qed
    have m: "length xs mod n = length xs - j * n"
      using q by (metis minus_mult_div_eq_mod mult.commute)
    with jn have "length xs mod n \<noteq> 0" by simp
    moreover have "snd (foldl (paso_bloque c xs) (bs, 0) (map (\<lambda>k. k * n) [0 ..< Suc j]))
                     = bits_por_bloque c - int (length xs mod n)"
      using snd_paso_bloque_corto [OF short, of st] jn m step by simp
    ultimately show ?thesis using last by auto
  qed
qed

lemma techo_div:
  fixes L n :: nat
  assumes "0 < n"
  shows "(L + n - 1) div n = (if L mod n = 0 then L div n else Suc (L div n))"
proof -
  define q r where "q = L div n" and "r = L mod n"
  have L: "L = n * q + r" by (simp add: q_def r_def)
  have rn: "r < n" using assms by (simp add: r_def)
  show ?thesis
  proof (cases "r = 0")
    case True
    have "L + n - 1 = n * q + (n - 1)" using L True assms by simp
    then have "(L + n - 1) div n = q + (n - 1) div n"
      using assms by (simp only: div_mult_self4)
    then show ?thesis using True assms by (simp add: q_def r_def)
  next
    case False
    have "L + n - 1 = n * Suc q + (r - 1)" using L False assms by simp
    then have "(L + n - 1) div n = Suc q + (r - 1) div n"
      using assms by (simp only: div_mult_self4)
    then show ?thesis using False rn by (simp add: q_def r_def)
  qed
qed

lemma binario_a_bloques_forma:
  fixes c xs
  defines "n \<equiv> nat (bits_por_bloque c)"
  assumes "0 < bits_por_bloque c"
  shows "binario_a_bloques c xs =
           Inr (map (\<lambda>k. take n (drop (k * n) xs)
                          @ replicate (n - length (take n (drop (k * n) xs))) CHR ''0'')
                  [0 ..< (length xs + n - 1) div n],
                if length xs mod n \<noteq> 0 then bits_por_bloque c - int (length xs mod n) else 0)"
proof -
  let ?is = "map (\<lambda>k. k * n) [0 ..< (length xs + n - 1) div n]"
  have r: "py_range0 (length xs) (bits_por_bloque c) = Inr ?is"
    using assms(2) by (simp add: py_range0_def n_def)
  have f: "fst (foldl (paso_bloque c xs) ([], 0) ?is) =
             map (\<lambda>k. take n (drop (k * n) xs)
                          @ replicate (n - length (take n (drop (k * n) xs))) CHR ''0'')
                  [0 ..< (length xs + n - 1) div n]"
    unfolding fst_foldl_paso_bloque by (simp add: n_def o_def)
  have s: "snd (foldl (paso_bloque c xs) ([], 0) ?is) =
             (if length xs mod n \<noteq> 0 then bits_por_bloque c - int (length xs mod n) else 0)"
    using snd_foldl_paso_bloque [OF assms(2), of "(length xs + n - 1) div n" xs "[]"]
    by (simp add: n_def)
  have "foldl (paso_bloque c xs) ([], 0) ?is =
          (map (\<lambda>k. take n (drop (k * n) xs)
                          @ replicate (n - length (take n (drop (k * n) xs))) CHR ''0'')
                  [0 ..< (length xs + n - 1) div n],
           if length xs mod n \<noteq> 0 then bits_por_bloque c - int (length xs mod n) else 0)"
    using f s by (simp add: prod_eq_iff)
  then show ?thesis
    unfolding binario_a_bloques_def r by simp
qed

lemma concat_bloques_prefijo:
  fixes n :: nat
  assumes "0 < n" and "j \<le> (length xs + n - 1) div n"
  shows "concat (map (\<lambda>k. take n (drop (k * n) xs)
                          @ replicate (n - length (take n (drop (k * n) xs))) CHR ''0'') [0 ..< j])
           = take (j * n) xs @ replicate (j * n - length xs) CHR ''0''"
  using assms(2)
proof (induction j)
  case 0
  show ?case by simp
next
  case (Suc j)
  then have "j < (length xs + n - 1) div n" by simp
  then have jn: "j * n < length xs" using rango_menor [OF assms(1)] by simp
  have t: "take (j * n + n) xs = take (j * n) xs @ take n (drop (j * n) xs)"
    by (rule take_add)
  have e: "Suc j * n = j * n + n" by simp
  have z: "n - length (take n (drop (j * n) xs)) = (j * n + n) - length xs"
    using jn by auto
  from Suc jn show ?case
    unfolding e by (simp add: t z)
qed

lemma concat_bloques_total:
  fixes n :: nat
  assumes "0 < n"
  shows "concat (map (\<lambda>k. take n (drop (k * n) xs)
                          @ replicate (n - length (take n (drop (k * n) xs))) CHR ''0'')
                   [0 ..< (length xs + n - 1) div n])
           = xs @ replicate (if length xs mod n \<noteq> 0 then n - length xs mod n else 0) CHR ''0''"
proof -
  let ?m = "(length xs + n - 1) div n"
  have m: "?m = (if length xs mod n = 0 then length xs div n else Suc (length xs div n))"
    by (rule techo_div [OF assms])
  have L: "n * (length xs div n) + length xs mod n = length xs" by simp
  have ge: "length xs \<le> ?m * n"
    using rango_menor [OF assms, of ?m "length xs"] by simp
  have d: "?m * n - length xs = (if length xs mod n \<noteq> 0 then n - length xs mod n else 0)"
  proof (cases "length xs mod n = 0")
    case True
    then have "?m * n = length xs" using m L by (simp add: mult.commute)
    then show ?thesis using True by simp
  next
    case False
    then have "?m * n = n * (length xs div n) + n" using m by (simp add: mult.commute)
    then have "?m * n - length xs = n - length xs mod n"
      using L mod_less_divisor [OF assms, of "length xs"] by linarith
    then show ?thesis using False by simp
  qed
  show ?thesis
    using concat_bloques_prefijo [OF assms, of ?m xs] ge d by simp
qed

text \<open>What the segmentation returns for a positive block size in the allowed range.\<close>

lemma segmentacion_propiedades:
  assumes "10 \<le> bits_por_bloque c" and "bits_por_bloque c \<le> 1000"
  shows "\<exists>bloques padding.
           binario_a_bloques c datos = Inr (bloques, padding)
         \<and> 0 \<le> padding \<and> padding < bits_por_bloque c
         \<and> (padding = 0 \<longleftrightarrow> int (length datos) mod bits_por_bloque c = 0)
         \<and> (datos = [] \<longrightarrow> bloques = [] \<and> padding = 0)
         \<and> (\<forall>b \<in> set bloques. int (length b) = bits_por_bloque c)
         \<and> concat bloques = datos @ replicate (nat padding) CHR ''0''
         \<and> (0 < padding \<longrightarrow> bloques \<noteq> []
              \<and> last bloques =
                  drop ((length bloques - 1) * nat (bits_por_bloque c)) datos
                  @ replicate (nat padding) CHR ''0'')"
proof -
  define n where "n = nat (bits_por_bloque c)"
  define m where "m = (length datos + n - 1) div n"
  define blk where "blk = (\<lambda>k. take n (drop (k * n) datos)
                          @ replicate (n - length (take n (drop (k * n) datos))) CHR ''0'')"
  define padding where
    "padding = (if length datos mod n \<noteq> 0 then bits_por_bloque c - int (length datos mod n) else 0)"
  have pos: "0 < bits_por_bloque c" using assms by simp
  have npos: "0 < n" using pos by (simp add: n_def)
  have bn: "bits_por_bloque c = int n" using pos by (simp add: n_def)
  have modlt: "length datos mod n < n" using npos by simp
  have res: "binario_a_bloques c datos = Inr (map blk [0 ..< m], padding)"
    using binario_a_bloques_forma [OF pos, of datos]
    by (simp add: n_def m_def blk_def padding_def)
  have np: "nat padding = (if length datos mod n \<noteq> 0 then n - length datos mod n else 0)"
    using modlt by (simp add: padding_def bn nat_diff_distrib')
  have p1: "0 \<le> padding"
    using modlt pos by (auto simp add: padding_def bn)
  have p1': "padding < bits_por_bloque c"
    using modlt pos by (auto simp add: padding_def bn)
  have p2: "padding = 0 \<longleftrightarrow> int (length datos) mod bits_por_bloque c = 0"
  proof -
    have "int (length datos) mod bits_por_bloque c = int (length datos mod n)"
      by (simp add: bn zmod_int)
    then show ?thesis using modlt by (auto simp add: padding_def bn)
  qed
  have p3: "datos = [] \<longrightarrow> map blk [0 ..< m] = [] \<and> padding = 0"
    using npos by (simp add: m_def padding_def)
  have p4: "\<forall>b \<in> set (map blk [0 ..< m]). int (length b) = bits_por_bloque c"
    by (auto simp add: blk_def bn)
  have p5: "concat (map blk [0 ..< m]) = datos @ replicate (nat padding) CHR ''0''"
    using concat_bloques_total [OF npos, of datos] by (simp add: blk_def m_def np)
  have p6: "0 < padding \<longrightarrow> map blk [0 ..< m] \<noteq> []
              \<and> last (map blk [0 ..< m]) =
                  drop ((length (map blk [0 ..< m]) - 1) * nat (bits_por_bloque c)) datos
                  @ replicate (nat padding) CHR ''0''"
  proof
    assume "0 < padding"
    then have nz: "length datos mod n \<noteq> 0" by (auto simp add: padding_def split: if_splits)
    have ms: "m = Suc (length datos div n)"
      using techo_div [OF npos, of "length datos"] nz by (simp add: m_def)
    have L: "n * (length datos div n) + length datos mod n = length datos" by simp
    have len: "length (drop (length datos div n * n) datos) = length datos mod n"
      by (simp add: mult.commute minus_mult_div_eq_mod)
    then have tk: "take n (drop (length datos div n * n) datos) = drop (length datos div n * n) datos"
      using modlt by simp
    have "last (map blk [0 ..< m]) = blk (length datos div n)"
      by (simp add: ms)
    also have "\<dots> = drop (length datos div n * n) datos @ replicate (nat padding) CHR ''0''"
      unfolding blk_def tk len using nz by (simp add: np)
    finally show "map blk [0 ..< m] \<noteq> []
              \<and> last (map blk [0 ..< m]) =
                  drop ((length (map blk [0 ..< m]) - 1) * nat (bits_por_bloque c)) datos
                  @ replicate (nat padding) CHR ''0''"
      by (simp add: ms n_def)
  qed
  show ?thesis
    apply (rule exI [of _ "map blk [0 ..< m]"])
    apply (rule exI [of _ padding])
    apply (insert res p1 p1' p2 p3 p4 p5 p6)
    apply (intro conjI)
           apply assumption+
    done
qed

text \<open>
  C4. For a block size in \<open>[10, 1000]\<close> and any string, \<open>binario_a_bloques\<close> returns
  blocks and a padding with \<open>0 \<le> padding < bits_por_bloque\<close>; the padding is zero exactly
  when the length of the input is a multiple of the block size; the empty input gives no
  block and no padding; every block has exactly the block size; the blocks joined are
  the input followed by \<open>padding\<close> zeros; and when the padding is positive the last block
  is the rest of the input followed by \<open>padding\<close> zeros.
\<close>

theorem binario_a_bloques_padding:
  assumes "10 \<le> bits_por_bloque c" and "bits_por_bloque c \<le> 1000"
  shows "\<exists>bloques padding.
           binario_a_bloques c datos = Inr (bloques, padding)
         \<and> 0 \<le> padding \<and> padding < bits_por_bloque c
         \<and> (padding = 0 \<longleftrightarrow> int (length datos) mod bits_por_bloque c = 0)
         \<and> (datos = [] \<longrightarrow> bloques = [] \<and> padding = 0)
         \<and> (\<forall>b \<in> set bloques. int (length b) = bits_por_bloque c)
         \<and> concat bloques = datos @ replicate (nat padding) CHR ''0''
         \<and> (0 < padding \<longrightarrow> bloques \<noteq> []
              \<and> last bloques =
                  drop ((length bloques - 1) * nat (bits_por_bloque c)) datos
                  @ replicate (nat padding) CHR ''0'')"
  using assms by (rule segmentacion_propiedades)

theorem binario_a_bloques_padding_witness:
  "\<exists>bloques padding.
     binario_a_bloques \<lparr>verbose = False, base = 5, potencia = 25, bits_por_bloque = 10\<rparr>
       ''1010101010101'' = Inr (bloques, padding)
     \<and> padding = 7 \<and> bloques = [''1010101010'', ''1010000000'']"
proof -
  let ?c = "\<lparr>verbose = False, base = 5, potencia = 25, bits_por_bloque = 10\<rparr>"
  obtain bloques padding where
    r: "binario_a_bloques ?c ''1010101010101'' = Inr (bloques, padding)"
    and p: "0 \<le> padding" "padding < 10"
    and l: "\<forall>b \<in> set bloques. int (length b) = 10"
    and k: "concat bloques = ''1010101010101'' @ replicate (nat padding) CHR ''0''"
    using binario_a_bloques_padding [of ?c "''1010101010101''"] by auto
  have e: "binario_a_bloques ?c ''1010101010101'' = Inr ([''1010101010'', ''1010000000''], 7)"
    by code_simp
  with r show ?thesis by simp
qed

section \<open>Bit strings and their values\<close>

lemma valor_bits_Nil: "valor_bits [] = 0"
  by (simp add: valor_bits_def)

lemma valor_bits_snoc:
  "valor_bits (s @ [ch]) = 2 * valor_bits s + (if ch = CHR ''1'' then 1 else 0)"
  by (simp add: valor_bits_def)

lemma valor_bits_append:
  "valor_bits (s @ t) = valor_bits s * 2 ^ length t + valor_bits t"
proof (induction t rule: rev_induct)
  case Nil
  show ?case by (simp add: valor_bits_Nil)
next
  case (snoc ch t)
  have "valor_bits (s @ t @ [ch]) = 2 * valor_bits (s @ t) + (if ch = CHR ''1'' then 1 else 0)"
    using valor_bits_snoc [of "s @ t" ch] by simp
  then show ?case
    using snoc by (simp add: valor_bits_snoc algebra_simps)
qed

lemma valor_bits_cota: "0 \<le> valor_bits s \<and> valor_bits s < 2 ^ length s"
proof (induction s rule: rev_induct)
  case Nil
  show ?case by (simp add: valor_bits_Nil)
next
  case (snoc ch s)
  then show ?case by (auto simp add: valor_bits_snoc)
qed

lemma valor_bits_Cons:
  "valor_bits (ch # s) = (if ch = CHR ''1'' then 1 else 0) * 2 ^ length s + valor_bits s"
proof -
  have "valor_bits ([ch] @ s) = valor_bits [ch] * 2 ^ length s + valor_bits s"
    by (rule valor_bits_append)
  moreover have "valor_bits [ch] = (if ch = CHR ''1'' then 1 else 0)"
    by (simp add: valor_bits_def)
  ultimately show ?thesis by simp
qed

text \<open>Two bit strings of the same length with the same value are the same string.\<close>

lemma valor_bits_inyectiva:
  assumes "length s = length t" and "list_all es_bit s" and "list_all es_bit t"
    and "valor_bits s = valor_bits t"
  shows "s = t"
  using assms
proof (induction s t rule: list_induct2)
  case Nil
  show ?case by simp
next
  case (Cons a s b t)
  have ls: "0 \<le> valor_bits s \<and> valor_bits s < 2 ^ length s" by (rule valor_bits_cota)
  have lt: "0 \<le> valor_bits t \<and> valor_bits t < 2 ^ length t" by (rule valor_bits_cota)
  have ab: "es_bit a" "es_bit b" using Cons.prems by simp_all
  have eq: "(if a = CHR ''1'' then 1 else 0) * 2 ^ length s + valor_bits s
          = (if b = CHR ''1'' then 1 else 0) * 2 ^ length s + valor_bits t"
    using Cons.prems(3) Cons.hyps by (simp add: valor_bits_Cons)
  have "a = b"
  proof (rule ccontr)
    assume "a \<noteq> b"
    then have "(a = CHR ''1'' \<and> b = CHR ''0'') \<or> (a = CHR ''0'' \<and> b = CHR ''1'')"
      using ab by (auto simp add: es_bit_def)
    then show False using eq ls lt Cons.hyps by auto
  qed
  moreover from this eq have "valor_bits s = valor_bits t" by simp
  ultimately show ?case using Cons by simp
qed

lemma valor_bits_replicate_append:
  "valor_bits (replicate k CHR ''0'' @ t) = valor_bits t"
  by (simp add: valor_bits_append valor_bits_ceros)

lemma bits_de_nat_valor: "valor_bits (bits_de_nat n) = int n"
proof (induction n rule: bits_de_nat.induct)
  case (1 n)
  show ?case
  proof (cases "n < 2")
    case True
    then have "n = 0 \<or> n = 1" by auto
    then show ?thesis
      by (auto simp add: bits_de_nat.simps [of n] valor_bits_def)
  next
    case False
    then have h: "valor_bits (bits_de_nat (n div 2)) = int (n div 2)" using 1 by simp
    have d: "int n = 2 * int (n div 2) + int (n mod 2)" by presburger
    have m: "n mod 2 = 0 \<or> n mod 2 = 1" by presburger
    have "bits_de_nat n =
            bits_de_nat (n div 2) @ [if n mod 2 = 0 then CHR ''0'' else CHR ''1'']"
      using False by (subst bits_de_nat.simps) simp
    then show ?thesis
      using h d m by (auto simp add: valor_bits_snoc)
  qed
qed

lemma es_bit_cero: "es_bit CHR ''0''"
  by (simp add: es_bit_def)

lemma es_bit_uno: "es_bit CHR ''1''"
  by (simp add: es_bit_def)

lemma bits_de_nat_es_bit: "list_all es_bit (bits_de_nat n)"
proof (induction n rule: bits_de_nat.induct)
  case (1 n)
  then show ?case
    by (subst bits_de_nat.simps) (simp add: es_bit_cero es_bit_uno)
qed

lemma bits_de_nat_no_vacio: "bits_de_nat n \<noteq> []"
  by (subst bits_de_nat.simps) simp

lemma bits_de_nat_length:
  "n < 2 ^ k \<Longrightarrow> 0 < k \<Longrightarrow> length (bits_de_nat n) \<le> k"
proof (induction n arbitrary: k rule: bits_de_nat.induct)
  case (1 n)
  show ?case
  proof (cases "n < 2")
    case True
    then show ?thesis using "1.prems" by (subst bits_de_nat.simps) simp
  next
    case False
    obtain k' where k: "k = Suc k'" using "1.prems" by (cases k) auto
    have "k' \<noteq> 0" using False "1.prems" k by (cases k') auto
    moreover have "n div 2 < 2 ^ k'" using "1.prems" k by auto
    ultimately have "length (bits_de_nat (n div 2)) \<le> k'"
      using "1.IH" [of k'] False by simp
    then show ?thesis using False k by (subst bits_de_nat.simps) simp
  qed
qed

lemma zfill_bits:
  assumes "list_all es_bit t" and "int (length t) \<le> w"
  shows "zfill w t = replicate (nat w - length t) CHR ''0'' @ t"
proof (cases t)
  case Nil
  then show ?thesis by (simp add: zfill_def)
next
  case (Cons ch r)
  then have "ch \<noteq> CHR ''+'' \<and> ch \<noteq> CHR ''-''"
    using assms(1) by (auto simp add: es_bit_def)
  then show ?thesis using Cons assms(2) by (auto simp add: zfill_def)
qed

text \<open>
  The conversion to binary of the decoders, on a value that fits in the block: a string
  of exactly \<open>bits_por_bloque\<close> bits whose value is the given one.
\<close>

lemma a_binario_forma:
  assumes "0 \<le> v" and "v < 2 ^ nat (bits_por_bloque c)" and "0 < bits_por_bloque c"
  shows "int (length (a_binario c v)) = bits_por_bloque c
       \<and> list_all es_bit (a_binario c v)
       \<and> valor_bits (a_binario c v) = v"
proof (cases "v = 0")
  case True
  then show ?thesis
    using assms(3) by (simp add: a_binario_def valor_bits_ceros list_all_length es_bit_def)
next
  case False
  let ?t = "bits_de_nat (nat v)"
  have "nat v < 2 ^ nat (bits_por_bloque c)"
    using assms(1,2) by (simp add: nat_less_iff)
  then have len: "length ?t \<le> nat (bits_por_bloque c)"
    using assms(3) by (intro bits_de_nat_length) simp_all
  then have "int (length ?t) \<le> bits_por_bloque c" using assms(3) by linarith
  then have z: "zfill (bits_por_bloque c) ?t
                  = replicate (nat (bits_por_bloque c) - length ?t) CHR ''0'' @ ?t"
    by (rule zfill_bits [OF bits_de_nat_es_bit])
  have a: "a_binario c v = replicate (nat (bits_por_bloque c) - length ?t) CHR ''0'' @ ?t"
    using False assms(1) z by (simp add: a_binario_def py_bin_def)
  have "valor_bits (a_binario c v) = v"
    unfolding a using assms(1) by (simp add: valor_bits_replicate_append bits_de_nat_valor)
  moreover have "list_all es_bit (a_binario c v)"
    unfolding a using bits_de_nat_es_bit [of "nat v"] by (auto simp add: list_all_iff es_bit_cero)
  moreover have "int (length (a_binario c v)) = bits_por_bloque c"
    unfolding a using len assms(3) by simp
  ultimately show ?thesis by simp
qed

lemma a_binario_valor_bits:
  assumes "int (length s) = bits_por_bloque c" and "list_all es_bit s" and "s \<noteq> []"
  shows "a_binario c (valor_bits s) = s"
proof -
  have n: "nat (bits_por_bloque c) = length s" using assms(1) by simp
  have pos: "0 < bits_por_bloque c" using assms(1,3) by (cases s) auto
  have b: "0 \<le> valor_bits s \<and> valor_bits s < 2 ^ length s" by (rule valor_bits_cota)
  have f: "int (length (a_binario c (valor_bits s))) = bits_por_bloque c
       \<and> list_all es_bit (a_binario c (valor_bits s))
       \<and> valor_bits (a_binario c (valor_bits s)) = valor_bits s"
    using b by (intro a_binario_forma) (simp_all add: n pos)
  show ?thesis
    using f assms(1,2) by (intro valor_bits_inyectiva) simp_all
qed

section \<open>The encoder loops compute the positional digits\<close>

lemma digitos_no_positivo: "\<not> 0 < v \<Longrightarrow> digitos p v = []"
  by (subst digitos.simps) simp

lemma digitos_paso: "0 < v \<Longrightarrow> 1 < p \<Longrightarrow> digitos p v = (v mod p) # digitos p (v div p)"
  by (subst digitos.simps) simp

lemma residuos_loop_digitos:
  "1 < p \<Longrightarrow> residuos_loop p acc v = Some (Inr (acc @ digitos p v))"
proof (induction p v arbitrary: acc rule: digitos.induct)
  case (1 p v)
  show ?case
  proof (cases "0 < v")
    case True
    have "residuos_loop p acc v = residuos_loop p (acc @ [v mod p]) (v div p)"
      using True "1.prems" by (subst residuos_loop.simps) simp
    also have "\<dots> = Some (Inr ((acc @ [v mod p]) @ digitos p (v div p)))"
      using True "1.prems" by (intro "1.IH") simp_all
    finally show ?thesis
      using True "1.prems" by (simp add: digitos_paso)
  next
    case False
    then show ?thesis
      by (subst residuos_loop.simps) (simp add: digitos_no_positivo)
  qed
qed

lemma ventanas_loop_digitos:
  "0 < w \<Longrightarrow> ventanas_loop (int w) (2 ^ w - 1) acc v = Some (Inr (acc @ digitos (2 ^ w) v))"
proof (induction "2 ^ w :: int" v arbitrary: acc rule: digitos.induct)
  case (1 v)
  have p: "(1::int) < 2 ^ w" using "1.prems" by simp
  show ?case
  proof (cases "0 < v")
    case True
    have m: "v AND (2 ^ w - 1) = v mod 2 ^ w"
      by (simp flip: mask_eq_exp_minus_1 take_bit_eq_mask add: take_bit_eq_mod)
    have d: "drop_bit w v = v div 2 ^ w"
      by (rule drop_bit_eq_div)
    have "ventanas_loop (int w) (2 ^ w - 1) acc v
            = ventanas_loop (int w) (2 ^ w - 1) (acc @ [v mod 2 ^ w]) (v div 2 ^ w)"
      using True by (subst ventanas_loop.simps) (simp add: m d)
    also have "\<dots> = Some (Inr ((acc @ [v mod 2 ^ w]) @ digitos (2 ^ w) (v div 2 ^ w)))"
      using True p "1.prems" by (intro "1.hyps") simp_all
    finally show ?thesis
      using True p by (simp add: digitos_paso)
  next
    case False
    then show ?thesis
      by (subst ventanas_loop.simps) (simp add: digitos_no_positivo)
  qed
qed

lemma digitos_rango: "d \<in> set (digitos p v) \<Longrightarrow> 0 \<le> d \<and> d < p"
proof (induction p v rule: digitos.induct)
  case (1 p v)
  show ?case
  proof (cases "0 < v \<and> 1 < p")
    case True
    then have "d = v mod p \<or> d \<in> set (digitos p (v div p))"
      using "1.prems" by (simp add: digitos_paso)
    then show ?thesis
      using True "1.IH" by auto
  next
    case False
    then have "digitos p v = []" by (subst digitos.simps) simp
    then show ?thesis using "1.prems" by simp
  qed
qed

lemma digitos_nth:
  "i < length (digitos p v) \<Longrightarrow> digitos p v ! i = (v div p ^ i) mod p"
proof (induction p v arbitrary: i rule: digitos.induct)
  case (1 p v)
  show ?case
  proof (cases "0 < v \<and> 1 < p")
    case True
    then have e: "digitos p v = (v mod p) # digitos p (v div p)" by (simp add: digitos_paso)
    show ?thesis
    proof (cases i)
      case 0
      then show ?thesis by (simp add: e)
    next
      case (Suc j)
      then have "j < length (digitos p (v div p))" using "1.prems" e by simp
      then have "digitos p (v div p) ! j = (v div p div p ^ j) mod p"
        using True by (intro "1.IH") simp_all
      moreover have "v div p div p ^ j = v div (p * p ^ j)"
        using True by (simp add: zdiv_zmult2_eq)
      ultimately show ?thesis using Suc by (simp add: e)
    qed
  next
    case False
    then have "digitos p v = []" by (subst digitos.simps) simp
    then show ?thesis using "1.prems" by simp
  qed
qed

lemma digitos_fin:
  "0 \<le> v \<Longrightarrow> 1 < p \<Longrightarrow> v div p ^ length (digitos p v) = 0"
proof (induction p v rule: digitos.induct)
  case (1 p v)
  show ?case
  proof (cases "0 < v")
    case True
    then have e: "digitos p v = (v mod p) # digitos p (v div p)"
      using "1.prems" by (simp add: digitos_paso)
    have "0 \<le> v div p" using True "1.prems" by (simp add: pos_imp_zdiv_nonneg_iff)
    then have "v div p div p ^ length (digitos p (v div p)) = 0"
      using True "1.prems" by (intro "1.IH") simp_all
    moreover have "v div p div p ^ length (digitos p (v div p))
                     = v div (p * p ^ length (digitos p (v div p)))"
      using "1.prems" by (simp add: zdiv_zmult2_eq)
    ultimately show ?thesis by (simp add: e)
  next
    case False
    then have "v = 0" using "1.prems" by simp
    then show ?thesis by simp
  qed
qed

lemma digitos_ultimo:
  "0 < v \<Longrightarrow> 1 < p \<Longrightarrow> digitos p v \<noteq> [] \<and> last (digitos p v) \<noteq> 0"
proof (induction p v rule: digitos.induct)
  case (1 p v)
  have e: "digitos p v = (v mod p) # digitos p (v div p)"
    using "1.prems" by (simp add: digitos_paso)
  show ?case
  proof (cases "0 < v div p")
    case True
    then have "digitos p (v div p) \<noteq> [] \<and> last (digitos p (v div p)) \<noteq> 0"
      using "1.prems" by (intro "1.IH") simp_all
    then show ?thesis by (simp add: e)
  next
    case False
    have "0 \<le> v div p" using "1.prems" by (simp add: pos_imp_zdiv_nonneg_iff)
    with False have z: "v div p = 0" by simp
    then have "digitos p (v div p) = []" by (simp add: digitos_no_positivo)
    moreover have "v mod p \<noteq> 0"
    proof
      assume "v mod p = 0"
      then have "v = p * (v div p)" by (simp add: mod_eq_0_iff_dvd)
      with z "1.prems" show False by simp
    qed
    ultimately show ?thesis by (simp add: e)
  qed
qed

section \<open>The decoder loops rebuild the value\<close>

lemma suma_digito:
  fixes a b p q :: int
  shows "a * q + b * (p * q) = (a + p * b) * q"
  by (simp add: algebra_simps)

lemma reconstruir_base5_digitos:
  "0 \<le> v \<Longrightarrow> 1 < p \<Longrightarrow> reconstruir_base5 p idx acc (digitos p v) = acc + v * p ^ idx"
proof (induction p v arbitrary: idx acc rule: digitos.induct)
  case (1 p v)
  show ?case
  proof (cases "0 < v")
    case True
    then have e: "digitos p v = (v mod p) # digitos p (v div p)"
      using "1.prems" by (simp add: digitos_paso)
    have "0 \<le> v div p" using True "1.prems" by (simp add: pos_imp_zdiv_nonneg_iff)
    then have "reconstruir_base5 p (Suc idx) (acc + v mod p * p ^ idx) (digitos p (v div p))
                 = (acc + v mod p * p ^ idx) + (v div p) * p ^ Suc idx"
      using True "1.prems" by (intro "1.IH") simp_all
    also have "\<dots> = acc + (v mod p + p * (v div p)) * p ^ idx"
      using suma_digito [of "v mod p" "p ^ idx" "v div p" p] by simp
    also have "\<dots> = acc + v * p ^ idx" by simp
    finally show ?thesis by (simp add: e)
  next
    case False
    then have "v = 0" using "1.prems" by simp
    then show ?thesis by (simp add: digitos_no_positivo)
  qed
qed

lemma reconstruir_base5_suma:
  "reconstruir_base5 p idx acc ds = acc + (\<Sum>i<length ds. ds ! i * p ^ (idx + i))"
proof (induction ds arbitrary: idx acc)
  case Nil
  show ?case by simp
next
  case (Cons d ds)
  have "(\<Sum>i<Suc (length ds). (d # ds) ! i * p ^ (idx + i))
          = (d # ds) ! 0 * p ^ (idx + 0)
            + (\<Sum>i<length ds. (d # ds) ! Suc i * p ^ (idx + Suc i))"
    by (rule sum.lessThan_Suc_shift)
  then have "(\<Sum>i<length (d # ds). (d # ds) ! i * p ^ (idx + i))
          = d * p ^ idx + (\<Sum>i<length ds. ds ! i * p ^ (Suc idx + i))"
    by simp
  then show ?case using Cons [of "Suc idx"] by simp
qed

lemma or_push_bit_suma:
  fixes a d :: int
  assumes "0 \<le> a" and "a < 2 ^ k"
  shows "a OR push_bit k d = a + d * 2 ^ k"
proof -
  have t: "take_bit k a = a" using assms by (simp add: take_bit_int_eq_self)
  then have "a OR push_bit k d = concat_bit k a d" by (simp add: concat_bit_def)
  also have "\<dots> = a + push_bit k d" using t by (simp add: concat_bit_eq)
  finally show ?thesis by (simp add: push_bit_eq_mult)
qed

lemma reconstruir_base2_base5:
  assumes "\<forall>d \<in> set ds. 0 \<le> d \<and> d < 2 ^ w" and "0 \<le> acc" and "acc < (2 ^ w) ^ idx"
  shows "reconstruir_base2 (int w) idx acc ds = Inr (reconstruir_base5 (2 ^ w) idx acc ds)"
  using assms
proof (induction ds arbitrary: idx acc)
  case Nil
  show ?case by simp
next
  case (Cons d ds)
  let ?K = "(2::int) ^ (idx * w)"
  have K: "(2 ^ w) ^ idx = ?K" by (simp flip: power_mult add: mult.commute)
  have d: "0 \<le> d" "d < 2 ^ w" using Cons.prems(1) by simp_all
  have o: "acc OR push_bit (idx * w) d = acc + d * ?K"
    using Cons.prems(2,3) K by (intro or_push_bit_suma) simp_all
  have n: "nat (int idx * int w) = idx * w"
    by (simp add: nat_mult_distrib)
  have nn: "\<not> int idx * int w < 0"
    by (simp add: not_less)
  have lo: "0 \<le> acc + d * ?K" using Cons.prems(2) d(1) by simp
  have "(d + 1) * ?K \<le> 2 ^ w * ?K"
    using d(2) by (intro mult_right_mono) simp_all
  then have "d * ?K + ?K \<le> (2 ^ w) ^ Suc idx"
    using K by (simp add: algebra_simps)
  then have hi: "acc + d * ?K < (2 ^ w) ^ Suc idx"
    using Cons.prems(3) K by linarith
  have "reconstruir_base2 (int w) (Suc idx) (acc + d * ?K) ds
          = Inr (reconstruir_base5 (2 ^ w) (Suc idx) (acc + d * ?K) ds)"
    using Cons.prems(1) lo hi by (intro Cons.IH) simp_all
  then show ?case
    using nn by (simp add: n o K)
qed

lemma bit_length_nat_potencia2: "bit_length_nat (2 ^ w) = Suc w"
proof (induction w)
  case 0
  have "bit_length_nat 1 = Suc (bit_length_nat 0)"
    by (subst bit_length_nat.simps) simp
  also have "bit_length_nat 0 = 0"
    by (subst bit_length_nat.simps) simp
  finally show ?case by simp
next
  case (Suc w)
  have "bit_length_nat (2 ^ Suc w) = Suc (bit_length_nat (2 ^ Suc w div 2))"
    by (subst bit_length_nat.simps) simp
  then show ?case using Suc by simp
qed

lemma bit_length_potencia2: "bit_length (2 ^ w) - 1 = int w"
proof -
  have a: "\<bar>(2::int) ^ w\<bar> = 2 ^ w" by simp
  have b: "nat ((2::int) ^ w) = 2 ^ w" by (simp add: nat_power_eq)
  show ?thesis
    unfolding bit_length_def a b bit_length_nat_potencia2 by simp
qed

lemma POTENCIAS_BASE_2_exponente:
  assumes "p \<in> set POTENCIAS_BASE_2"
  shows "\<exists>w. 0 < w \<and> p = 2 ^ w"
proof -
  have "set POTENCIAS_BASE_2 = (\<lambda>w. 2 ^ w) ` {1, 2, 4, 8, 16, 32, 64::nat}"
    by (simp add: POTENCIAS_BASE_2_def)
  with assms obtain w where "w \<in> {1, 2, 4, 8, 16, 32, 64::nat}" and "p = 2 ^ w"
    by blast
  then show ?thesis by auto
qed

lemma POTENCIAS_BASE_5_mayor: "p \<in> set POTENCIAS_BASE_5 \<Longrightarrow> 1 < p"
  by (auto simp add: POTENCIAS_BASE_5_def)

lemma init_valido:
  assumes "CodificadorUniversal_init b p n vb = Inr c"
  shows "base c = b" and "potencia c = p" and "bits_por_bloque c = n"
    and "b = 2 \<or> b = 5"
    and "b = 2 \<Longrightarrow> p \<in> set POTENCIAS_BASE_2"
    and "b = 5 \<Longrightarrow> p \<in> set POTENCIAS_BASE_5"
    and "10 \<le> n" and "n \<le> 1000"
  using assms
  by (auto simp add: CodificadorUniversal_init_def BITS_MINIMO_def BITS_MAXIMO_def
      split: if_splits)

lemma digitos_vacio: "0 \<le> v \<Longrightarrow> 1 < p \<Longrightarrow> digitos p v = [] \<Longrightarrow> v = 0"
  by (cases "0 < v") (simp_all add: digitos_paso)

text \<open>One block through the base-2 encoder and decoder, for a power \<open>2 ^ w\<close>.\<close>

lemma codificar_bloque_base2_digitos:
  assumes "potencia c = 2 ^ w" and "0 < w" and "bloque \<noteq> []" and "list_all es_bit bloque"
  shows "codificar_bloque_base2 c bloque k =
           Some (Inr (if digitos (2 ^ w) (valor_bits bloque) = [] then [0]
                      else digitos (2 ^ w) (valor_bits bloque)))"
  using assms
  by (simp add: codificar_bloque_base2_def py_int2_def bit_length_potencia2
      ventanas_loop_digitos)

lemma decodificar_bloque_base2_suma:
  assumes "potencia c = 2 ^ w" and "\<forall>d \<in> set ds. 0 \<le> d \<and> d < 2 ^ w"
  shows "decodificar_bloque_base2 c ds k =
           Inr (a_binario c (reconstruir_base5 (2 ^ w) 0 0 ds))"
  using reconstruir_base2_base5 [OF assms(2), of 0 0] assms(1)
  by (simp add: decodificar_bloque_base2_def bit_length_potencia2)

lemma bloque_base2_vuelta:
  assumes "potencia c = 2 ^ w" and "0 < w" and "bloque \<noteq> []" and "list_all es_bit bloque"
    and "int (length bloque) = bits_por_bloque c"
  shows "decodificar_bloque_base2 c
           (if digitos (2 ^ w) (valor_bits bloque) = [] then [0]
            else digitos (2 ^ w) (valor_bits bloque)) k = Inr bloque"
proof -
  let ?v = "valor_bits bloque"
  let ?ds = "if digitos (2 ^ w) ?v = [] then [0] else digitos (2 ^ w) ?v"
  have v: "0 \<le> ?v" using valor_bits_cota [of bloque] by simp
  have p: "(1::int) < 2 ^ w" using assms(2) by simp
  have r: "\<forall>d \<in> set ?ds. 0 \<le> d \<and> d < 2 ^ w"
    using digitos_rango [of _ "2 ^ w" ?v] by auto
  have "reconstruir_base5 (2 ^ w) 0 0 ?ds = ?v"
  proof (cases "digitos (2 ^ w) ?v = []")
    case True
    then have "?v = 0" using v p by (intro digitos_vacio [of ?v "2 ^ w"])
    then show ?thesis using True by simp
  next
    case False
    then show ?thesis using reconstruir_base5_digitos [OF v p, of 0 0] by simp
  qed
  then have "decodificar_bloque_base2 c ?ds k = Inr (a_binario c ?v)"
    using decodificar_bloque_base2_suma [OF assms(1) r, of k] by simp
  then show ?thesis
    using a_binario_valor_bits [OF assms(5,4,3)] by simp
qed

text \<open>One block through the base-5 encoder and decoder, for a power greater than one.\<close>

lemma codificar_bloque_base5_digitos:
  assumes "1 < potencia c" and "bloque \<noteq> []" and "list_all es_bit bloque"
  shows "codificar_bloque_base5 c bloque k =
           Some (Inr (if digitos (potencia c) (valor_bits bloque) = [] then [0]
                      else digitos (potencia c) (valor_bits bloque)))"
  using assms
  by (simp add: codificar_bloque_base5_def py_int2_def residuos_loop_digitos)

lemma bloque_base5_vuelta:
  assumes "1 < potencia c" and "bloque \<noteq> []" and "list_all es_bit bloque"
    and "int (length bloque) = bits_por_bloque c"
  shows "decodificar_bloque_base5 c
           (if digitos (potencia c) (valor_bits bloque) = [] then [0]
            else digitos (potencia c) (valor_bits bloque)) k = Inr bloque"
proof -
  let ?v = "valor_bits bloque"
  let ?p = "potencia c"
  let ?ds = "if digitos ?p ?v = [] then [0] else digitos ?p ?v"
  have v: "0 \<le> ?v" using valor_bits_cota [of bloque] by simp
  have "reconstruir_base5 ?p 0 0 ?ds = ?v"
  proof (cases "digitos ?p ?v = []")
    case True
    then have "?v = 0" using v assms(1) by (intro digitos_vacio [of ?v ?p])
    then show ?thesis using True by simp
  next
    case False
    then show ?thesis using reconstruir_base5_digitos [OF v assms(1), of 0 0] by simp
  qed
  then have "decodificar_bloque_base5 c ?ds k = Inr (a_binario c ?v)"
    by (simp add: decodificar_bloque_base5_def)
  then show ?thesis
    using a_binario_valor_bits [OF assms(4,3,2)] by simp
qed

section \<open>Digits stay below the power\<close>

lemma ventanas_loop_rango:
  assumes "0 < w" and "0 \<le> mascara"
  shows "0 \<le> v \<Longrightarrow> \<forall>d \<in> set acc. 0 \<le> d \<and> d \<le> mascara \<Longrightarrow>
         \<exists>ds. ventanas_loop w mascara acc v = Some (Inr ds)
              \<and> (\<forall>d \<in> set ds. 0 \<le> d \<and> d \<le> mascara)"
proof (induction "nat v" arbitrary: v acc rule: less_induct)
  case less
  show ?case
  proof (cases "0 < v")
    case True
    let ?v' = "drop_bit (nat w) v"
    have e: "?v' = v div 2 ^ nat w" by (rule drop_bit_eq_div)
    have "(1::int) < 2 ^ nat w" using assms(1) by simp
    then have lt: "?v' < v" using True e by (simp add: int_div_less_self)
    have ge: "0 \<le> ?v'" using True e by (simp add: pos_imp_zdiv_nonneg_iff)
    have m: "nat ?v' < nat v" using lt ge True by simp
    have d: "0 \<le> v AND mascara \<and> v AND mascara \<le> mascara"
      using assms(2) by (simp add: AND_upper2)
    have acc': "\<forall>d \<in> set (acc @ [v AND mascara]). 0 \<le> d \<and> d \<le> mascara"
      using less.prems(2) d by simp
    obtain ds where
      "ventanas_loop w mascara (acc @ [v AND mascara]) ?v' = Some (Inr ds)"
      "\<forall>d \<in> set ds. 0 \<le> d \<and> d \<le> mascara"
      using less.hyps [OF m ge acc'] by blast
    moreover have "ventanas_loop w mascara acc v
                     = ventanas_loop w mascara (acc @ [v AND mascara]) ?v'"
      using True assms(1) by (subst ventanas_loop.simps) simp
    ultimately show ?thesis by simp
  next
    case False
    then have "ventanas_loop w mascara acc v = Some (Inr acc)"
      by (subst ventanas_loop.simps) simp
    then show ?thesis using less.prems(2) by simp
  qed
qed

lemma bit_length_nat_dos: "2 \<le> n \<Longrightarrow> 2 \<le> bit_length_nat n"
proof -
  assume n: "2 \<le> n"
  have "bit_length_nat n = Suc (bit_length_nat (n div 2))"
    using n by (subst bit_length_nat.simps) simp
  moreover have "bit_length_nat (n div 2) = Suc (bit_length_nat (n div 2 div 2))"
    using n by (subst bit_length_nat.simps) simp
  ultimately show ?thesis by simp
qed

lemma bit_length_dos:
  assumes "2 \<le> p"
  shows "0 < bit_length p - 1"
proof -
  have "2 \<le> nat \<bar>p\<bar>" using assms by simp
  then have "2 \<le> bit_length_nat (nat \<bar>p\<bar>)" by (rule bit_length_nat_dos)
  then show ?thesis by (simp add: bit_length_def)
qed

lemma init_potencia_mayor:
  assumes "CodificadorUniversal_init b p n vb = Inr c"
  shows "2 \<le> potencia c"
proof -
  have "b = 2 \<or> b = 5" using init_valido(4) [OF assms] .
  then show ?thesis
  proof
    assume "b = 2"
    then obtain w where "0 < w" "p = 2 ^ w"
      using init_valido(5) [OF assms] POTENCIAS_BASE_2_exponente by blast
    then have "(2::int) ^ 1 \<le> 2 ^ w" by (intro power_increasing) simp_all
    then show ?thesis using init_valido(2) [OF assms] \<open>p = 2 ^ w\<close> by simp
  next
    assume "b = 5"
    then have "1 < p" using init_valido(6) [OF assms] POTENCIAS_BASE_5_mayor by blast
    then show ?thesis using init_valido(2) [OF assms] by simp
  qed
qed

text \<open>
  C9. For a codec that the constructor accepts and a non-empty block of bits, each of the
  two block encoders returns a list of digits, and every digit \<open>d\<close> of it satisfies
  \<open>0 \<le> d < potencia\<close>.
\<close>

theorem digitos_en_rango:
  assumes "CodificadorUniversal_init b p n vb = Inr c"
    and "bloque \<noteq> []" and "list_all es_bit bloque"
  shows "(\<exists>ds. codificar_bloque_base2 c bloque k = Some (Inr ds)
              \<and> (\<forall>d \<in> set ds. 0 \<le> d \<and> d < potencia c))
       \<and> (\<exists>ds. codificar_bloque_base5 c bloque k = Some (Inr ds)
              \<and> (\<forall>d \<in> set ds. 0 \<le> d \<and> d < potencia c))"
proof
  have p2: "2 \<le> potencia c" by (rule init_potencia_mayor [OF assms(1)])
  have v: "0 \<le> valor_bits bloque" using valor_bits_cota [of bloque] by simp
  have i: "py_int2 bloque = Inr (valor_bits bloque)"
    using assms(2,3) by (simp add: py_int2_def)
  obtain ds where
    l: "ventanas_loop (bit_length (potencia c) - 1) (potencia c - 1) [] (valor_bits bloque)
          = Some (Inr ds)"
    and r: "\<forall>d \<in> set ds. 0 \<le> d \<and> d \<le> potencia c - 1"
    using ventanas_loop_rango [OF bit_length_dos [OF p2], of "potencia c - 1" "valor_bits bloque" "[]"]
      p2 v by auto
  have "codificar_bloque_base2 c bloque k = Some (Inr (if ds = [] then [0] else ds))"
    by (simp add: codificar_bloque_base2_def i l)
  moreover have "\<forall>d \<in> set (if ds = [] then [0] else ds). 0 \<le> d \<and> d < potencia c"
    using r p2 by auto
  ultimately show "\<exists>ds. codificar_bloque_base2 c bloque k = Some (Inr ds)
              \<and> (\<forall>d \<in> set ds. 0 \<le> d \<and> d < potencia c)"
    by blast
next
  have p2: "2 \<le> potencia c" by (rule init_potencia_mayor [OF assms(1)])
  then have p1: "1 < potencia c" by simp
  let ?ds = "if digitos (potencia c) (valor_bits bloque) = [] then [0]
             else digitos (potencia c) (valor_bits bloque)"
  have "codificar_bloque_base5 c bloque k = Some (Inr ?ds)"
    by (rule codificar_bloque_base5_digitos [OF p1 assms(2,3)])
  moreover have "\<forall>d \<in> set ?ds. 0 \<le> d \<and> d < potencia c"
    using digitos_rango [of _ "potencia c" "valor_bits bloque"] p2 by auto
  ultimately show "\<exists>ds. codificar_bloque_base5 c bloque k = Some (Inr ds)
              \<and> (\<forall>d \<in> set ds. 0 \<le> d \<and> d < potencia c)"
    by blast
qed

theorem digitos_en_rango_witness:
  "codificar_bloque_base2 \<lparr>verbose = False, base = 2, potencia = 16, bits_por_bloque = 10\<rparr>
     ''1011011101'' 1 = Some (Inr [13, 13, 2])
   \<and> (0::int) \<le> 13 \<and> (13::int) < 16 \<and> (0::int) \<le> 2 \<and> (2::int) < 16
   \<and> codificar_bloque_base5 \<lparr>verbose = False, base = 2, potencia = 16, bits_por_bloque = 10\<rparr>
     ''1011011101'' 1 = Some (Inr [13, 13, 2])"
proof -
  let ?c = "\<lparr>verbose = False, base = 2, potencia = 16, bits_por_bloque = 10\<rparr>"
  have i: "CodificadorUniversal_init 2 16 10 False = Inr ?c"
    by (simp add: CodificadorUniversal_init_def POTENCIAS_BASE_2_def BITS_MINIMO_def
        BITS_MAXIMO_def)
  have b: "''1011011101'' \<noteq> [] \<and> list_all es_bit ''1011011101''"
    by (simp add: es_bit_def)
  obtain ds where
    "codificar_bloque_base2 ?c ''1011011101'' 1 = Some (Inr ds)"
    "\<forall>d \<in> set ds. 0 \<le> d \<and> d < potencia ?c"
    using digitos_en_rango [OF i, of "''1011011101''" 1] b by blast
  moreover have "codificar_bloque_base2 ?c ''1011011101'' 1 = Some (Inr [13, 13, 2])"
    by code_simp
  moreover have "codificar_bloque_base5 ?c ''1011011101'' 1 = Some (Inr [13, 13, 2])"
    by code_simp
  ultimately show ?thesis by simp
qed

section \<open>Round trip of one block\<close>

lemma suma_ventanas:
  "(\<Sum>i<length ds. push_bit (i * w) (ds ! i)) = reconstruir_base5 (2 ^ w) 0 0 ds"
proof -
  have "reconstruir_base5 (2 ^ w) 0 0 ds = (\<Sum>i<length ds. ds ! i * (2 ^ w) ^ i)"
    using reconstruir_base5_suma [of "2 ^ w" 0 0 ds] by simp
  also have "\<dots> = (\<Sum>i<length ds. push_bit (i * w) (ds ! i))"
    by (rule sum.cong) (simp_all add: push_bit_eq_mult mult.commute flip: power_mult)
  finally show ?thesis by simp
qed

lemma suma_residuos:
  "(\<Sum>i<length ds. ds ! i * p ^ i) = reconstruir_base5 p 0 0 ds"
  using reconstruir_base5_suma [of p 0 0 ds] by simp

lemma ventana_i:
  fixes v :: int
  shows "(v div (2 ^ w) ^ i) mod 2 ^ w = drop_bit (i * w) v AND (2 ^ w - 1)"
proof -
  have "(2::int) ^ (i * w) = (2 ^ w) ^ i" by (metis power_mult mult.commute)
  then have "drop_bit (i * w) v = v div (2 ^ w) ^ i" by (simp add: drop_bit_eq_div)
  moreover have "drop_bit (i * w) v AND (2 ^ w - 1) = drop_bit (i * w) v mod 2 ^ w"
    by (simp flip: mask_eq_exp_minus_1 take_bit_eq_mask add: take_bit_eq_mod)
  ultimately show ?thesis by simp
qed

text \<open>The digits that both encoders return for a value, with the canonical zero.\<close>

lemma digitos_o_cero_nth:
  assumes "0 \<le> v" and "1 < p"
    and "i < length (if digitos p v = [] then [0] else digitos p v)"
  shows "(if digitos p v = [] then [0] else digitos p v) ! i = (v div p ^ i) mod p"
proof (cases "digitos p v = []")
  case True
  then have "v = 0" using assms(1,2) by (intro digitos_vacio [of v p])
  then show ?thesis using True assms(3) by simp
next
  case False
  then show ?thesis using assms(3) by (simp add: digitos_nth)
qed

lemma digitos_o_cero_fin:
  assumes "0 \<le> v" and "1 < p"
  shows "v div p ^ length (if digitos p v = [] then [0] else digitos p v) = 0"
proof (cases "digitos p v = []")
  case True
  then have "v = 0" using assms by (intro digitos_vacio [of v p])
  then show ?thesis by simp
next
  case False
  then show ?thesis using digitos_fin [OF assms] by simp
qed

lemma digitos_o_cero_ultimo:
  assumes "0 < v" and "1 < p"
  shows "last (if digitos p v = [] then [0] else digitos p v) \<noteq> 0"
  using digitos_ultimo [OF assms] by simp

lemma digitos_o_cero_valor:
  assumes "0 \<le> v" and "1 < p"
  shows "reconstruir_base5 p 0 0 (if digitos p v = [] then [0] else digitos p v) = v"
proof (cases "digitos p v = []")
  case True
  then have "v = 0" using assms by (intro digitos_vacio [of v p])
  then show ?thesis using True by simp
next
  case False
  then show ?thesis using reconstruir_base5_digitos [OF assms, of 0 0] by simp
qed

text \<open>
  C2. For an accepted base-2 codec the window width \<open>w\<close> is \<open>bit_length(potencia) - 1\<close>
  and \<open>potencia = 2 ^ w\<close>. A block of exactly \<open>bits_por_bloque\<close> bits, read as the
  unsigned integer \<open>v\<close> with the most-significant bit first, is encoded as a non-empty
  list of windows: window \<open>i\<close> is \<open>(v >> (i * w)) & (potencia - 1)\<close>, the windows stop
  where \<open>v >> (length * w)\<close> is zero, and the last window of a non-zero value is not
  zero. The windows shifted back into place add up to \<open>v\<close>, and decoding them gives the
  block back, with its exact width. On any list of digits below the power the decoder
  returns the binary rendering of the sum of \<open>digit[i] << (i * w)\<close>.
\<close>

theorem bloque_base2_ida_y_vuelta:
  assumes "CodificadorUniversal_init 2 p n vb = Inr c"
    and "int (length bloque) = bits_por_bloque c" and "list_all es_bit bloque"
  shows "\<exists>ventanas w.
           0 < w \<and> potencia c = 2 ^ w \<and> bit_length (potencia c) - 1 = int w
         \<and> codificar_bloque_base2 c bloque k = Some (Inr ventanas)
         \<and> ventanas \<noteq> []
         \<and> (\<forall>i<length ventanas.
              ventanas ! i = drop_bit (i * w) (valor_bits bloque) AND (potencia c - 1))
         \<and> drop_bit (length ventanas * w) (valor_bits bloque) = 0
         \<and> (0 < valor_bits bloque \<longrightarrow> last ventanas \<noteq> 0)
         \<and> (\<Sum>i<length ventanas. push_bit (i * w) (ventanas ! i)) = valor_bits bloque
         \<and> decodificar_bloque_base2 c ventanas k' = Inr bloque
         \<and> (\<forall>ds. (\<forall>d \<in> set ds. 0 \<le> d \<and> d < potencia c) \<longrightarrow>
              decodificar_bloque_base2 c ds k' =
                Inr (a_binario c (\<Sum>i<length ds. push_bit (i * w) (ds ! i))))"
proof -
  obtain w where w: "0 < w" and pw: "p = 2 ^ w"
    using init_valido(5) [OF assms(1)] POTENCIAS_BASE_2_exponente by blast
  have pc: "potencia c = 2 ^ w" using init_valido(2) [OF assms(1)] pw by simp
  have p1: "(1::int) < 2 ^ w" using w by simp
  have ne: "bloque \<noteq> []"
    using assms(2) init_valido(3,7) [OF assms(1)] by auto
  let ?v = "valor_bits bloque"
  let ?ds = "if digitos (2 ^ w) ?v = [] then [0] else digitos (2 ^ w) ?v"
  have v: "0 \<le> ?v" using valor_bits_cota [of bloque] by simp
  have c1: "bit_length (potencia c) - 1 = int w"
    unfolding pc by (rule bit_length_potencia2)
  have c2: "codificar_bloque_base2 c bloque k = Some (Inr ?ds)"
    by (rule codificar_bloque_base2_digitos [OF pc w ne assms(3)])
  have c3: "?ds \<noteq> []" by simp
  have c4: "\<forall>i<length ?ds. ?ds ! i = drop_bit (i * w) ?v AND (potencia c - 1)"
    unfolding pc using digitos_o_cero_nth [OF v p1] by (simp only: ventana_i) simp
  have c5: "drop_bit (length ?ds * w) ?v = 0"
  proof -
    have "(2::int) ^ (length ?ds * w) = (2 ^ w) ^ length ?ds"
      by (metis power_mult mult.commute)
    then have "drop_bit (length ?ds * w) ?v = ?v div (2 ^ w) ^ length ?ds"
      by (simp only: drop_bit_eq_div)
    then show ?thesis using digitos_o_cero_fin [OF v p1] by simp
  qed
  have c6: "0 < ?v \<longrightarrow> last ?ds \<noteq> 0"
    using digitos_o_cero_ultimo [OF _ p1, of ?v] by blast
  have c7: "(\<Sum>i<length ?ds. push_bit (i * w) (?ds ! i)) = ?v"
    unfolding suma_ventanas by (rule digitos_o_cero_valor [OF v p1])
  have c8: "decodificar_bloque_base2 c ?ds k' = Inr bloque"
    by (rule bloque_base2_vuelta [OF pc w ne assms(3,2)])
  have c9: "\<forall>ds. (\<forall>d \<in> set ds. 0 \<le> d \<and> d < potencia c) \<longrightarrow>
              decodificar_bloque_base2 c ds k' =
                Inr (a_binario c (\<Sum>i<length ds. push_bit (i * w) (ds ! i)))"
    unfolding suma_ventanas pc using decodificar_bloque_base2_suma [OF pc] by blast
  show ?thesis
    apply (rule exI [of _ ?ds])
    apply (rule exI [of _ w])
    apply (insert w pc c1 c2 c3 c4 c5 c6 c7 c8 c9)
    apply (intro conjI)
              apply assumption+
    done
qed

theorem bloque_base2_ida_y_vuelta_witness:
  "codificar_bloque_base2 \<lparr>verbose = False, base = 2, potencia = 16, bits_por_bloque = 10\<rparr>
     ''1011011101'' 1 = Some (Inr [13, 13, 2])
   \<and> decodificar_bloque_base2 \<lparr>verbose = False, base = 2, potencia = 16, bits_por_bloque = 10\<rparr>
     [13, 13, 2] 1 = Inr ''1011011101''"
proof -
  let ?c = "\<lparr>verbose = False, base = 2, potencia = 16, bits_por_bloque = 10\<rparr>"
  have i: "CodificadorUniversal_init 2 16 10 False = Inr ?c"
    by (simp add: CodificadorUniversal_init_def POTENCIAS_BASE_2_def BITS_MINIMO_def
        BITS_MAXIMO_def)
  have l: "int (length ''1011011101'') = bits_por_bloque ?c" by simp
  have b: "list_all es_bit ''1011011101''" by (simp add: es_bit_def)
  obtain ventanas where
    "codificar_bloque_base2 ?c ''1011011101'' 1 = Some (Inr ventanas)"
    "decodificar_bloque_base2 ?c ventanas 1 = Inr ''1011011101''"
    using bloque_base2_ida_y_vuelta [OF i l b, of 1 1] by blast
  moreover have "codificar_bloque_base2 ?c ''1011011101'' 1 = Some (Inr [13, 13, 2])"
    by code_simp
  ultimately show ?thesis by simp
qed

text \<open>
  C3. For an accepted base-5 codec, a block of exactly \<open>bits_por_bloque\<close> bits, read as
  the unsigned integer \<open>v\<close>, is encoded as a non-empty list of residues: residue \<open>i\<close> is
  \<open>(v // potencia^i) mod potencia\<close>, the residues stop where \<open>v // potencia^length\<close> is
  zero, and the last residue of a non-zero value is not zero. The residues weighted by
  the powers add up to \<open>v\<close>, and decoding them gives the block back, with its exact
  width. On any list of digits the decoder returns the binary rendering of the sum of
  \<open>digit[i] * potencia^i\<close>.
\<close>

theorem bloque_base5_ida_y_vuelta:
  assumes "CodificadorUniversal_init 5 p n vb = Inr c"
    and "int (length bloque) = bits_por_bloque c" and "list_all es_bit bloque"
  shows "\<exists>residuos.
           codificar_bloque_base5 c bloque k = Some (Inr residuos)
         \<and> residuos \<noteq> []
         \<and> (\<forall>i<length residuos.
              residuos ! i = (valor_bits bloque div potencia c ^ i) mod potencia c)
         \<and> valor_bits bloque div potencia c ^ length residuos = 0
         \<and> (0 < valor_bits bloque \<longrightarrow> last residuos \<noteq> 0)
         \<and> (\<Sum>i<length residuos. residuos ! i * potencia c ^ i) = valor_bits bloque
         \<and> decodificar_bloque_base5 c residuos k' = Inr bloque
         \<and> (\<forall>ds. decodificar_bloque_base5 c ds k' =
                    Inr (a_binario c (\<Sum>i<length ds. ds ! i * potencia c ^ i)))"
proof -
  have "p \<in> set POTENCIAS_BASE_5" using init_valido(6) [OF assms(1)] by simp
  then have "1 < p" by (rule POTENCIAS_BASE_5_mayor)
  then have p1: "1 < potencia c" using init_valido(2) [OF assms(1)] by simp
  have ne: "bloque \<noteq> []"
    using assms(2) init_valido(3,7) [OF assms(1)] by auto
  let ?v = "valor_bits bloque"
  let ?p = "potencia c"
  let ?ds = "if digitos ?p ?v = [] then [0] else digitos ?p ?v"
  have v: "0 \<le> ?v" using valor_bits_cota [of bloque] by simp
  have c2: "codificar_bloque_base5 c bloque k = Some (Inr ?ds)"
    by (rule codificar_bloque_base5_digitos [OF p1 ne assms(3)])
  have c3: "?ds \<noteq> []" by simp
  have c4: "\<forall>i<length ?ds. ?ds ! i = (?v div ?p ^ i) mod ?p"
    using digitos_o_cero_nth [OF v p1] by blast
  have c5: "?v div ?p ^ length ?ds = 0"
    by (rule digitos_o_cero_fin [OF v p1])
  have c6: "0 < ?v \<longrightarrow> last ?ds \<noteq> 0"
    using digitos_o_cero_ultimo [OF _ p1, of ?v] by blast
  have c7: "(\<Sum>i<length ?ds. ?ds ! i * ?p ^ i) = ?v"
    unfolding suma_residuos by (rule digitos_o_cero_valor [OF v p1])
  have c8: "decodificar_bloque_base5 c ?ds k' = Inr bloque"
    by (rule bloque_base5_vuelta [OF p1 ne assms(3,2)])
  have c9: "\<forall>ds. decodificar_bloque_base5 c ds k' =
                    Inr (a_binario c (\<Sum>i<length ds. ds ! i * ?p ^ i))"
    unfolding suma_residuos by (simp add: decodificar_bloque_base5_def)
  show ?thesis
    apply (rule exI [of _ ?ds])
    apply (insert c2 c3 c4 c5 c6 c7 c8 c9)
    apply (intro conjI)
           apply assumption+
    done
qed

theorem bloque_base5_ida_y_vuelta_witness:
  "codificar_bloque_base5 \<lparr>verbose = False, base = 5, potencia = 25, bits_por_bloque = 10\<rparr>
     ''1011011101'' 1 = Some (Inr [8, 4, 1])
   \<and> decodificar_bloque_base5 \<lparr>verbose = False, base = 5, potencia = 25, bits_por_bloque = 10\<rparr>
     [8, 4, 1] 1 = Inr ''1011011101''"
proof -
  let ?c = "\<lparr>verbose = False, base = 5, potencia = 25, bits_por_bloque = 10\<rparr>"
  have i: "CodificadorUniversal_init 5 25 10 False = Inr ?c"
    by (simp add: CodificadorUniversal_init_def POTENCIAS_BASE_5_def BITS_MINIMO_def
        BITS_MAXIMO_def)
  have l: "int (length ''1011011101'') = bits_por_bloque ?c" by simp
  have b: "list_all es_bit ''1011011101''" by (simp add: es_bit_def)
  obtain residuos where
    "codificar_bloque_base5 ?c ''1011011101'' 1 = Some (Inr residuos)"
    "decodificar_bloque_base5 ?c residuos 1 = Inr ''1011011101''"
    using bloque_base5_ida_y_vuelta [OF i l b, of 1 1] by blast
  moreover have "codificar_bloque_base5 ?c ''1011011101'' 1 = Some (Inr [8, 4, 1])"
    by code_simp
  ultimately show ?thesis by simp
qed

section \<open>Round trip of a whole stream\<close>

lemma bloque_ida_y_vuelta:
  assumes "CodificadorUniversal_init b p n vb = Inr c"
    and "int (length bloque) = bits_por_bloque c" and "list_all es_bit bloque"
  shows "\<exists>ds. (if base c = 2 then codificar_bloque_base2 c bloque i
               else codificar_bloque_base5 c bloque i) = Some (Inr ds)
            \<and> (\<forall>j. (if base c = 2 then decodificar_bloque_base2 c ds j
                     else decodificar_bloque_base5 c ds j) = Inr bloque)"
proof -
  have ne: "bloque \<noteq> []"
    using assms(2) init_valido(3,7) [OF assms(1)] by auto
  have bc: "base c = b" and pc: "potencia c = p"
    using init_valido(1,2) [OF assms(1)] by simp_all
  have "b = 2 \<or> b = 5" using init_valido(4) [OF assms(1)] .
  then show ?thesis
  proof
    assume b2: "b = 2"
    then obtain w where w: "0 < w" and pw: "potencia c = 2 ^ w"
      using init_valido(5) [OF assms(1)] POTENCIAS_BASE_2_exponente pc by blast
    show ?thesis
      using codificar_bloque_base2_digitos [OF pw w ne assms(3), of i]
        bloque_base2_vuelta [OF pw w ne assms(3,2)] bc b2
      by simp
  next
    assume b5: "b = 5"
    then have "1 < p" using init_valido(6) [OF assms(1)] POTENCIAS_BASE_5_mayor by blast
    then have p1: "1 < potencia c" using pc by simp
    show ?thesis
      using codificar_bloque_base5_digitos [OF p1 ne assms(3), of i]
        bloque_base5_vuelta [OF p1 ne assms(3,2)] bc b5
      by simp
  qed
qed

lemma bloques_ida_y_vuelta:
  assumes "\<forall>bl \<in> set bs. \<forall>i. \<exists>ds.
             (if base c = 2 then codificar_bloque_base2 c bl i
              else codificar_bloque_base5 c bl i) = Some (Inr ds)
           \<and> (\<forall>j. (if base c = 2 then decodificar_bloque_base2 c ds j
                    else decodificar_bloque_base5 c ds j) = Inr bl)"
  shows "\<exists>cs. codificar_bloques c i bs = Some (Inr cs)
            \<and> decodificar_bloques c j cs = Inr bs"
  using assms
proof (induction bs arbitrary: i j)
  case Nil
  show ?case by simp
next
  case (Cons bl bs)
  obtain ds where
    e: "(if base c = 2 then codificar_bloque_base2 c bl i
         else codificar_bloque_base5 c bl i) = Some (Inr ds)"
    and d: "(if base c = 2 then decodificar_bloque_base2 c ds j
             else decodificar_bloque_base5 c ds j) = Inr bl"
    using Cons.prems by (meson list.set_intros(1))
  have "\<forall>bl \<in> set bs. \<forall>i. \<exists>ds.
             (if base c = 2 then codificar_bloque_base2 c bl i
              else codificar_bloque_base5 c bl i) = Some (Inr ds)
           \<and> (\<forall>j. (if base c = 2 then decodificar_bloque_base2 c ds j
                    else decodificar_bloque_base5 c ds j) = Inr bl)"
    using Cons.prems by simp
  then obtain cs where
    r: "codificar_bloques c (Suc i) bs = Some (Inr cs)"
    and s: "decodificar_bloques c (Suc j) cs = Inr bs"
    using Cons.IH [of "Suc i" "Suc j"] by blast
  have "codificar_bloques c i (bl # bs) = Some (Inr (ds # cs))"
    using e r by simp
  moreover have "decodificar_bloques c j (ds # cs) = Inr (bl # bs)"
    using d s by simp
  ultimately show ?case by blast
qed

text \<open>
  C1. For a codec that the constructor accepts (base 2 or 5, a power allowed for the
  base, a block size in \<open>[10, 1000]\<close>) and any string of the characters \<open>0\<close> and \<open>1\<close>,
  the empty string included, \<open>codificar\<close> returns a stream, and \<open>decodificar\<close> with the
  same codec returns exactly the original string from it.
\<close>

theorem ida_y_vuelta:
  assumes "CodificadorUniversal_init b p n vb = Inr c" and "list_all es_bit bits"
  shows "\<exists>d. codificar c bits t = Some (Inr d) \<and> decodificar c d = Inr bits"
proof -
  have r: "10 \<le> bits_por_bloque c" "bits_por_bloque c \<le> 1000"
    using init_valido(3,7,8) [OF assms(1)] by simp_all
  obtain bloques padding where
    seg: "binario_a_bloques c bits = Inr (bloques, padding)"
    and pad: "0 \<le> padding"
    and len: "\<forall>bl \<in> set bloques. int (length bl) = bits_por_bloque c"
    and cat: "concat bloques = bits @ replicate (nat padding) CHR ''0''"
    using segmentacion_propiedades [OF r, of bits] by blast
  have bitsb: "\<forall>bl \<in> set bloques. list_all es_bit bl"
  proof
    fix bl assume "bl \<in> set bloques"
    then have "set bl \<subseteq> set (concat bloques)" by auto
    also have "\<dots> \<subseteq> set bits \<union> {CHR ''0''}" unfolding cat by auto
    finally show "list_all es_bit bl"
      using assms(2) by (auto simp add: list_all_iff es_bit_cero)
  qed
  have "\<forall>bl \<in> set bloques. \<forall>i. \<exists>ds.
             (if base c = 2 then codificar_bloque_base2 c bl i
              else codificar_bloque_base5 c bl i) = Some (Inr ds)
           \<and> (\<forall>j. (if base c = 2 then decodificar_bloque_base2 c ds j
                    else decodificar_bloque_base5 c ds j) = Inr bl)"
    using bloque_ida_y_vuelta [OF assms(1)] len bitsb by blast
  then obtain cs where
    enc: "codificar_bloques c 1 bloques = Some (Inr cs)"
    and dec: "decodificar_bloques c 1 cs = Inr bloques"
    using bloques_ida_y_vuelta [of bloques c 1 1] by blast
  let ?d = "\<lparr>bloques_codificados = cs, bits_padding = padding, dc_base = base c,
             dc_potencia = potencia c, dc_bits_por_bloque = bits_por_bloque c,
             num_bloques = int (length bloques), bits_originales = int (length bits),
             tiempo_codificacion = t\<rparr>"
  have c1: "codificar c bits t = Some (Inr ?d)"
    using enc by (simp add: codificar_def seg)
  have "take (length (concat bloques) - nat padding) (concat bloques) = bits"
    unfolding cat by simp
  moreover have "\<not> 0 < padding \<Longrightarrow> concat bloques = bits"
    unfolding cat using pad by simp
  ultimately have c2: "decodificar c ?d = Inr bits"
    using dec by (simp add: decodificar_def Let_def)
  from c1 c2 show ?thesis by blast
qed

theorem ida_y_vuelta_witness:
  "codificar \<lparr>verbose = False, base = 5, potencia = 25, bits_por_bloque = 10\<rparr>
     ''1011011101101'' () =
     Some (Inr \<lparr>bloques_codificados = [[8, 4, 1], [15, 0, 1]], bits_padding = 7, dc_base = 5,
                dc_potencia = 25, dc_bits_por_bloque = 10, num_bloques = 2,
                bits_originales = 13, tiempo_codificacion = ()\<rparr>)
   \<and> decodificar \<lparr>verbose = False, base = 5, potencia = 25, bits_por_bloque = 10\<rparr>
       \<lparr>bloques_codificados = [[8, 4, 1], [15, 0, 1]], bits_padding = 7, dc_base = 5,
        dc_potencia = 25, dc_bits_por_bloque = 10, num_bloques = 2,
        bits_originales = 13, tiempo_codificacion = ()\<rparr> = Inr ''1011011101101''"
proof -
  let ?c = "\<lparr>verbose = False, base = 5, potencia = 25, bits_por_bloque = 10\<rparr>"
  have i: "CodificadorUniversal_init 5 25 10 False = Inr ?c"
    by (simp add: CodificadorUniversal_init_def POTENCIAS_BASE_5_def BITS_MINIMO_def
        BITS_MAXIMO_def)
  have b: "list_all es_bit ''1011011101101''" by (simp add: es_bit_def)
  let ?x = "\<lparr>bloques_codificados = [[8, 4, 1], [15, 0, 1]], bits_padding = 7, dc_base = 5,
                dc_potencia = 25, dc_bits_por_bloque = 10, num_bloques = 2,
                bits_originales = 13, tiempo_codificacion = ()\<rparr>"
  obtain d where
    e1: "codificar ?c ''1011011101101'' () = Some (Inr d)"
    and e2: "decodificar ?c d = Inr ''1011011101101''"
    using ida_y_vuelta [OF i b, of "()"] by blast
  have e3: "codificar ?c ''1011011101101'' () = Some (Inr ?x)"
    by code_simp
  have dx: "?x = d"
    using e1 unfolding e3 by (simp only: option.inject sum.inject)
  have e4: "decodificar ?c ?x = Inr ''1011011101101''"
    unfolding dx by (rule e2)
  show ?thesis by (rule conjI [OF e3 e4])
qed

section \<open>Integrity check\<close>

lemma calcular_sha256_no_vacio:
  assumes "s \<noteq> []" and "list_all es_bit s"
  shows "calcular_sha256 sha256 s =
           Inr (sha256 (bytes_big
                  (length (s @ replicate ((8 - length s mod 8) mod 8) CHR ''0'') div 8)
                  (nat (valor_bits (s @ replicate ((8 - length s mod 8) mod 8) CHR ''0'')))))"
proof -
  let ?t = "s @ replicate ((8 - length s mod 8) mod 8) CHR ''0''"
  have b: "list_all es_bit ?t"
    using assms(2) by (auto simp add: list_all_iff es_bit_cero)
  have i: "py_int2 ?t = Inr (valor_bits ?t)"
    using assms(1) b by (simp add: py_int2_def)
  have "length ?t mod 8 = 0" by (simp add: mod_simps) presburger
  then have e: "8 * (length ?t div 8) = length ?t" by presburger
  have "(256::nat) ^ (length ?t div 8) = (2 ^ 8) ^ (length ?t div 8)" by simp
  also have "\<dots> = 2 ^ (8 * (length ?t div 8))" by (simp only: power_mult)
  finally have "(256::nat) ^ (length ?t div 8) = 2 ^ length ?t" by (simp only: e)
  moreover have "nat (valor_bits ?t) < 2 ^ length ?t"
    using valor_bits_cota [of ?t] by (simp add: nat_less_iff)
  ultimately have "to_bytes (length ?t div 8) (nat (valor_bits ?t))
                     = Inr (bytes_big (length ?t div 8) (nat (valor_bits ?t)))"
    by (simp add: to_bytes_def)
  then show ?thesis
    using i by (simp add: calcular_sha256_def Let_def)
qed

text \<open>
  For non-empty strings of bits the check returns the conjunction of the two comparisons,
  and two identical strings are verified.
\<close>

lemma verificar_integridad_no_vacio:
  assumes "s \<noteq> []" and "list_all es_bit s" and "t \<noteq> []" and "list_all es_bit t"
  shows "\<exists>hs ht. calcular_sha256 sha256 s = Inr hs \<and> calcular_sha256 sha256 t = Inr ht
               \<and> verificar_integridad sha256 s t = Inr (s = t \<and> hs = ht)"
  using calcular_sha256_no_vacio [OF assms(1,2), of sha256]
    calcular_sha256_no_vacio [OF assms(3,4), of sha256]
  by (simp add: verificar_integridad_def Let_def)

lemma verificar_integridad_identicos:
  assumes "s \<noteq> []" and "list_all es_bit s"
  shows "verificar_integridad sha256 s s = Inr True"
  using verificar_integridad_no_vacio [OF assms assms, of sha256] by auto

text \<open>
  C8. The check of two identical bit strings should report that the bits and the hashes
  agree. For the empty bit string, which \<open>codificar\<close> and \<open>decodificar\<close> carry through,
  \<open>calcular_sha256\<close> calls \<open>int('', 2)\<close>, so the check of the empty string against itself
  raises \<open>ValueError\<close> and reports nothing, whatever the digest function is.
\<close>

theorem verificar_integridad_vacio:
  "verificar_integridad sha256 [] [] = Inl (ValueError LiteralInvalido)"
  by (simp add: verificar_integridad_def calcular_sha256_def py_int2_def)

end
